theory Spec2Isabelle
  imports Complex_Main "HOL-Library.Sublist" "HOL-Library.Product_Lexorder"
begin

section \<open>Data model of \<^verbatim>\<open>mol-gl/scene.ts\<close>\<close>

text \<open>
  The scene of \<^verbatim>\<open>Scene.create\<close> is a closure over mutable variables. It is
  modelled by explicit state passing over a record that has one field per captured
  variable. JavaScript numbers are idealised: identifiers and hashes are \<open>int\<close>,
  published scalars and clock readings are \<open>real\<close>. Objects that the source shares
  by reference (a renderable is held by the map, by the live list and by one
  partition at once) live in a store, \<open>heap\<close>, and the collections hold addresses.
  The transform state of \<^verbatim>\<open>Object3D\<close> (view, position, direction, up) is
  not read by any operation below and is left out.
\<close>

datatype error = TypeError

datatype variant = ColorBlended | ColorWboit | Pick | Depth | Marking

record Program =
  program_id :: int

record Sphere3D =
  center :: "real \<times> real \<times> real"
  radius :: real

text \<open>
  A \<^verbatim>\<open>GraphicsRenderable\<close> as far as the scene reads it: \<open>renderable_id\<close> is its
  \<^verbatim>\<open>id\<close>, the \<open>st_\<close> fields are \<^verbatim>\<open>state.visible\<close> and
  \<^verbatim>\<open>state.alphaFactor\<close>, the \<open>v_\<close> fields are the cells
  \<^verbatim>\<open>values.X.ref.value\<close> (\<open>v_dXrayShaded\<close> is optional in the source, hence
  an option), \<open>getProgram\<close> gives no program for a render variant the item was not
  built with, and \<open>disposed\<close> records a call of \<^verbatim>\<open>dispose()\<close>.
\<close>

record GraphicsRenderable =
  renderable_id :: int
  materialId :: int
  st_visible :: bool
  st_alphaFactor :: real
  v_alpha :: real
  v_transparencyAverage :: real
  v_dXrayShaded :: "bool option"
  v_markerAverage :: real
  v_boundingSphere :: Sphere3D
  getProgram :: "variant \<Rightarrow> Program option"
  disposed :: bool

text \<open>
  A \<^verbatim>\<open>GraphicsRenderObject\<close>: \<open>oref\<close> is the object's reference, which is
  what the JavaScript \<^verbatim>\<open>Map\<close> compares; \<open>object_id\<close> is its \<^verbatim>\<open>id\<close>
  and \<open>otype\<close> its \<^verbatim>\<open>type\<close> tag.
\<close>

record GraphicsRenderObject =
  oref :: nat
  object_id :: int
  otype :: string

text \<open>
  Modelled from the spec: the class \<^verbatim>\<open>CommitQueue\<close> (mol-gl/commit-queue) is
  not among the sources. The spec (4.1) describes two pending sets, popped one
  identity at a time, typically in insertion order: two lists, popped at the head.
\<close>

record CommitQueue =
  removeList :: "GraphicsRenderObject list"
  addList :: "GraphicsRenderObject list"

definition tryGetRemove :: "CommitQueue \<Rightarrow> GraphicsRenderObject option \<times> CommitQueue" where
  "tryGetRemove q =
     (case removeList q of
        [] \<Rightarrow> (None, q)
      | ob # rest \<Rightarrow> (Some ob, q\<lparr>removeList := rest\<rparr>))"

definition tryGetAdd :: "CommitQueue \<Rightarrow> GraphicsRenderObject option \<times> CommitQueue" where
  "tryGetAdd q =
     (case addList q of
        [] \<Rightarrow> (None, q)
      | ob # rest \<Rightarrow> (Some ob, q\<lparr>addList := rest\<rparr>))"

definition isEmpty :: "CommitQueue \<Rightarrow> bool" where
  "isEmpty q = (removeList q = [] \<and> addList q = [])"

definition pending :: "CommitQueue \<Rightarrow> nat" where
  "pending q = length (removeList q) + length (addList q)"

text \<open>
  The module-level \<^verbatim>\<open>BoundaryHelper\<close> (mol-math/geometry/boundary-helper) is
  not among the sources either; its five operations are parameters, over a helper
  state \<open>'h\<close>. \<open>reset\<close> is the helper state that \<^verbatim>\<open>reset()\<close> establishes.
\<close>

record 'h BoundaryHelper =
  reset :: 'h
  includeSphere :: "'h \<Rightarrow> Sphere3D \<Rightarrow> 'h"
  finishedIncludeStep :: "'h \<Rightarrow> 'h"
  radiusSphere :: "'h \<Rightarrow> Sphere3D \<Rightarrow> 'h"
  getSphere :: "'h \<Rightarrow> Sphere3D"

text \<open>
  The collaborators the scene calls but does not define. \<open>createRenderable\<close> is the
  factory of mol-gl/render-object (the \<^verbatim>\<open>ctx\<close> and \<^verbatim>\<open>variants\<close> of
  \<^verbatim>\<open>Scene.create\<close> are folded into it); its first argument is the number of
  renderables the scene has created before, so that it may answer differently each
  time, as a factory that draws fresh ids does. \<open>hash1\<close> is the mixing function of
  mol-data/util and \<open>renderableUpdate\<close> is \<^verbatim>\<open>renderable.update()\<close>.
\<close>

record 'h Env =
  boundaryHelper :: "'h BoundaryHelper"
  createRenderable :: "nat \<Rightarrow> GraphicsRenderObject \<Rightarrow> GraphicsRenderable"
  hash1 :: "int \<Rightarrow> int"
  renderableUpdate :: "GraphicsRenderable \<Rightarrow> GraphicsRenderable"

text \<open>
  What \<^verbatim>\<open>console.warn\<close> has printed: the one message of this module is
  \<^verbatim>\<open>RenderObject with id '<id>' already present\<close>.
\<close>

datatype warning = AlreadyPresent int

record Scene =
  heap :: "nat \<Rightarrow> GraphicsRenderable"
  nextRef :: nat
  console :: "warning list"
  renderableMap :: "nat \<rightharpoonup> nat"
  renderables :: "nat list"
  boundingSphere :: Sphere3D
  boundingSphereVisible :: Sphere3D
  primitives :: "nat list"
  volumes :: "nat list"
  boundingSphereDirty :: bool
  boundingSphereVisibleDirty :: bool
  markerAverage :: real
  opacityAverage :: real
  commitQueue :: CommitQueue
  visibleHash :: int

text \<open>Modelled from the spec: \<^verbatim>\<open>Sphere3D()\<close>, the empty sphere (3: radius 0
  means no geometry).\<close>

definition Sphere3D_zero :: Sphere3D where
  "Sphere3D_zero = \<lparr>center = (0, 0, 0), radius = 0\<rparr>"

definition unallocated :: GraphicsRenderable where
  "unallocated =
     \<lparr>renderable_id = 0, materialId = 0, st_visible = False, st_alphaFactor = 0, v_alpha = 0,
      v_transparencyAverage = 0, v_dXrayShaded = None, v_markerAverage = 0,
      v_boundingSphere = Sphere3D_zero, getProgram = (\<lambda>v. None), disposed = False\<rparr>"

text \<open>The state at the end of \<^verbatim>\<open>Scene.create\<close>.\<close>

definition create :: Scene where
  "create =
     \<lparr>heap = (\<lambda>r. unallocated), nextRef = 0, console = [],
      renderableMap = Map.empty, renderables = [],
      boundingSphere = Sphere3D_zero, boundingSphereVisible = Sphere3D_zero,
      primitives = [], volumes = [],
      boundingSphereDirty = True, boundingSphereVisibleDirty = True,
      markerAverage = 0, opacityAverage = 0,
      commitQueue = \<lparr>removeList = [], addList = []\<rparr>,
      visibleHash = - 1\<rparr>"

section \<open>Aggregate statistics\<close>

text \<open>Modelled from the spec: \<^verbatim>\<open>clamp\<close> (mol-math/interpolate) is not among the
  sources; 4.7 uses it as the usual clamp of a value to an interval.\<close>

definition clamp :: "real \<Rightarrow> real \<Rightarrow> real \<Rightarrow> real" where
  "clamp v lo hi = max lo (min hi v)"

text \<open>The loop of \<^verbatim>\<open>calculateMarkerAverage\<close>, with its two accumulators.\<close>

fun markerLoop :: "(nat \<Rightarrow> GraphicsRenderable) \<Rightarrow> nat list \<Rightarrow> nat \<Rightarrow> real \<Rightarrow> nat \<times> real" where
  "markerLoop h [] count acc = (count, acc)"
| "markerLoop h (p # ps) count acc =
     (if \<not> st_visible (h p) then markerLoop h ps count acc
      else markerLoop h ps (count + 1) (acc + v_markerAverage (h p)))"

definition calculateMarkerAverage :: "Scene \<Rightarrow> real" where
  "calculateMarkerAverage s =
     (if length (primitives s) = 0 then 0
      else (case markerLoop (heap s) (primitives s) 0 0 of
              (count, acc) \<Rightarrow> if count > 0 then acc / real count else 0))"

definition opacityTerm :: "GraphicsRenderable \<Rightarrow> real" where
  "opacityTerm p =
     (let alpha = clamp (v_alpha p * st_alphaFactor p) 0 1;
          xray = (case v_dXrayShaded p of Some True \<Rightarrow> 0.5 | _ \<Rightarrow> 1)
      in (1 - v_transparencyAverage p) * alpha * xray)"

fun opacityLoop :: "(nat \<Rightarrow> GraphicsRenderable) \<Rightarrow> nat list \<Rightarrow> nat \<Rightarrow> real \<Rightarrow> nat \<times> real" where
  "opacityLoop h [] count acc = (count, acc)"
| "opacityLoop h (p # ps) count acc =
     (if \<not> st_visible (h p) then opacityLoop h ps count acc
      else opacityLoop h ps (count + 1) (acc + opacityTerm (h p)))"

definition calculateOpacityAverage :: "Scene \<Rightarrow> real" where
  "calculateOpacityAverage s =
     (if length (primitives s) = 0 then 0
      else (case opacityLoop (heap s) (primitives s) 0 0 of
              (count, acc) \<Rightarrow> if count > 0 then acc / real count else 0))"

section \<open>Drawable registry\<close>

text \<open>Modelled from the spec: \<^verbatim>\<open>arraySetRemove\<close> (mol-util/array) is not among
  the sources; 4.2 has it remove the instance from the list it is given.\<close>

definition arraySetRemove :: "nat list \<Rightarrow> nat \<Rightarrow> nat list" where
  "arraySetRemove xs x = remove1 x xs"

definition add :: "'h Env \<Rightarrow> Scene \<Rightarrow> GraphicsRenderObject \<Rightarrow> nat \<times> Scene" where
  "add env s ob =
     (case renderableMap s (oref ob) of
        None \<Rightarrow>
          (let r = nextRef s;
               s1 = s\<lparr>heap := (heap s)(r := createRenderable env r ob), nextRef := Suc r\<rparr>;
               s2 = s1\<lparr>renderables := renderables s1 @ [r]\<rparr>;
               s3 = (if otype ob = ''direct-volume''
                     then s2\<lparr>volumes := volumes s2 @ [r]\<rparr>
                     else s2\<lparr>primitives := primitives s2 @ [r]\<rparr>);
               s4 = s3\<lparr>renderableMap := (renderableMap s3)(oref ob \<mapsto> r)\<rparr>
           in (r, s4\<lparr>boundingSphereDirty := True, boundingSphereVisibleDirty := True\<rparr>))
      | Some r \<Rightarrow> (r, s\<lparr>console := console s @ [AlreadyPresent (object_id ob)]\<rparr>))"

definition remove :: "Scene \<Rightarrow> GraphicsRenderObject \<Rightarrow> Scene" where
  "remove s ob =
     (case renderableMap s (oref ob) of
        None \<Rightarrow> s
      | Some r \<Rightarrow>
          s\<lparr>heap := (heap s)(r := (heap s r)\<lparr>disposed := True\<rparr>),
            renderables := arraySetRemove (renderables s) r,
            primitives := arraySetRemove (primitives s) r,
            volumes := arraySetRemove (volumes s) r,
            renderableMap := (renderableMap s)(oref ob := None),
            boundingSphereDirty := True,
            boundingSphereVisibleDirty := True\<rparr>)"

section \<open>Draw-order sort\<close>

text \<open>
  \<^verbatim>\<open>x || y\<close> on two possibly missing programs, and \<^verbatim>\<open>(...).id\<close>, which
  throws a TypeError on \<^verbatim>\<open>undefined\<close>. In the source the fallback of the
  second operand reads the program of \<^verbatim>\<open>a\<close>, and so does the model.
\<close>

definition orElse :: "'a option \<Rightarrow> 'a option \<Rightarrow> 'a option" where
  "orElse x y = (case x of Some v \<Rightarrow> Some v | None \<Rightarrow> y)"

definition renderableSort :: "GraphicsRenderable \<Rightarrow> GraphicsRenderable \<Rightarrow> error + int" where
  "renderableSort a b =
     (case orElse (getProgram a ColorBlended) (getProgram a ColorWboit) of
        None \<Rightarrow> Inl TypeError
      | Some pa \<Rightarrow>
          (case orElse (getProgram b ColorBlended) (getProgram a ColorWboit) of
             None \<Rightarrow> Inl TypeError
           | Some pb \<Rightarrow>
               (let drawProgramIdA = program_id pa; drawProgramIdB = program_id pb;
                    materialIdA = materialId a; materialIdB = materialId b
                in if drawProgramIdA \<noteq> drawProgramIdB then Inr (drawProgramIdA - drawProgramIdB)
                   else if materialIdA \<noteq> materialIdB then Inr (materialIdA - materialIdB)
                   else Inr (renderable_id a - renderable_id b))))"

text \<open>
  \<^verbatim>\<open>Array.prototype.sort\<close> with a comparison function is stable, and with a
  consistent comparison every stable sort gives the same list; it is modelled by
  insertion from the right. A comparison that throws ends the sort with the error.
\<close>

fun insertSorted :: "('a \<Rightarrow> 'a \<Rightarrow> error + int) \<Rightarrow> 'a \<Rightarrow> 'a list \<Rightarrow> error + 'a list" where
  "insertSorted cmp x [] = Inr [x]"
| "insertSorted cmp x (y # ys) =
     (case cmp x y of
        Inl e \<Rightarrow> Inl e
      | Inr v \<Rightarrow>
          if v \<le> 0 then Inr (x # y # ys)
          else (case insertSorted cmp x ys of Inl e \<Rightarrow> Inl e | Inr zs \<Rightarrow> Inr (y # zs)))"

fun arraySort :: "('a \<Rightarrow> 'a \<Rightarrow> error + int) \<Rightarrow> 'a list \<Rightarrow> error + 'a list" where
  "arraySort cmp [] = Inr []"
| "arraySort cmp (x # xs) =
     (case arraySort cmp xs of Inl e \<Rightarrow> Inl e | Inr ys \<Rightarrow> insertSorted cmp x ys)"

section \<open>Commit protocol\<close>

definition commitBulkSize :: nat where
  "commitBulkSize = 100"

text \<open>
  \<^verbatim>\<open>now()\<close> is read once at the start of \<^verbatim>\<open>commit\<close> and then exactly
  when the counter \<open>i\<close> reaches a multiple of the batch size (the \<^verbatim>\<open>&&\<close>
  does not evaluate it otherwise), so the reading taken at counter \<open>i\<close> is reading
  number \<open>i div commitBulkSize\<close> of the invocation. The clock of one invocation is
  the sequence \<open>now\<close> of its readings, \<open>now 0\<close> being \<^verbatim>\<open>start\<close>.
\<close>

datatype loop_exit = Break nat Scene | ReturnFalse Scene

function removeLoop :: "real \<Rightarrow> (nat \<Rightarrow> real) \<Rightarrow> nat \<Rightarrow> Scene \<Rightarrow> loop_exit" where
  "removeLoop maxTimeMs now i s =
     (case tryGetRemove (commitQueue s) of
        (None, q) \<Rightarrow> Break i s
      | (Some ob, q) \<Rightarrow>
          (let s1 = remove (s\<lparr>commitQueue := q\<rparr>) ob; i1 = i + 1
           in if i1 mod commitBulkSize = 0 \<and> now (i1 div commitBulkSize) - now 0 > maxTimeMs
              then ReturnFalse s1
              else removeLoop maxTimeMs now i1 s1))"
  by pat_completeness auto
termination
  by (relation "measure (\<lambda>(t, now, i, s). length (removeList (commitQueue s)))")
     (auto simp: tryGetRemove_def remove_def split: list.splits option.splits)

function addLoop :: "'h Env \<Rightarrow> real \<Rightarrow> (nat \<Rightarrow> real) \<Rightarrow> nat \<Rightarrow> Scene \<Rightarrow> loop_exit" where
  "addLoop env maxTimeMs now i s =
     (case tryGetAdd (commitQueue s) of
        (None, q) \<Rightarrow> Break i s
      | (Some ob, q) \<Rightarrow>
          (let s1 = snd (add env (s\<lparr>commitQueue := q\<rparr>) ob); i1 = i + 1
           in if i1 mod commitBulkSize = 0 \<and> now (i1 div commitBulkSize) - now 0 > maxTimeMs
              then ReturnFalse s1
              else addLoop env maxTimeMs now i1 s1))"
  by pat_completeness auto
termination
  by (relation "measure (\<lambda>(env, t, now, i, s). length (addList (commitQueue s)))")
     (auto simp: tryGetAdd_def add_def Let_def split: list.splits option.splits)

definition commit :: "'h Env \<Rightarrow> real \<Rightarrow> (nat \<Rightarrow> real) \<Rightarrow> Scene \<Rightarrow> error + bool \<times> Scene" where
  "commit env maxTimeMs now s =
     (case removeLoop maxTimeMs now 0 s of
        ReturnFalse s1 \<Rightarrow> Inr (False, s1)
      | Break i s1 \<Rightarrow>
          (case addLoop env maxTimeMs now i s1 of
             ReturnFalse s2 \<Rightarrow> Inr (False, s2)
           | Break j s2 \<Rightarrow>
               (case arraySort (\<lambda>a b. renderableSort (heap s2 a) (heap s2 b)) (renderables s2) of
                  Inl e \<Rightarrow> Inl e
                | Inr ordered \<Rightarrow>
                    (let s3 = s2\<lparr>renderables := ordered\<rparr>
                     in Inr (True, s3\<lparr>opacityAverage := calculateOpacityAverage s3\<rparr>)))))"

section \<open>Bounding spheres\<close>

text \<open>
  The two passes of \<^verbatim>\<open>calculateBoundingSphere\<close> over the same array. The test
  \<^verbatim>\<open>!boundingSphere.radius\<close> skips a sphere of radius 0.
\<close>

fun includeLoop :: "'h BoundaryHelper \<Rightarrow> bool \<Rightarrow> GraphicsRenderable list \<Rightarrow> 'h \<Rightarrow> 'h" where
  "includeLoop bh onlyVisible [] h = h"
| "includeLoop bh onlyVisible (r # rs) h =
     (if onlyVisible \<and> \<not> st_visible r then includeLoop bh onlyVisible rs h
      else if radius (v_boundingSphere r) = 0 then includeLoop bh onlyVisible rs h
      else includeLoop bh onlyVisible rs (includeSphere bh h (v_boundingSphere r)))"

fun radiusLoop :: "'h BoundaryHelper \<Rightarrow> bool \<Rightarrow> GraphicsRenderable list \<Rightarrow> 'h \<Rightarrow> 'h" where
  "radiusLoop bh onlyVisible [] h = h"
| "radiusLoop bh onlyVisible (r # rs) h =
     (if onlyVisible \<and> \<not> st_visible r then radiusLoop bh onlyVisible rs h
      else if radius (v_boundingSphere r) = 0 then radiusLoop bh onlyVisible rs h
      else radiusLoop bh onlyVisible rs (radiusSphere bh h (v_boundingSphere r)))"

definition calculateBoundingSphere ::
  "'h BoundaryHelper \<Rightarrow> GraphicsRenderable list \<Rightarrow> bool \<Rightarrow> Sphere3D" where
  "calculateBoundingSphere bh rs onlyVisible =
     (let h1 = includeLoop bh onlyVisible rs (reset bh);
          h2 = finishedIncludeStep bh h1;
          h3 = radiusLoop bh onlyVisible rs h2
      in getSphere bh h3)"

section \<open>Visibility fingerprint\<close>

text \<open>\<^verbatim>\<open>x | 0\<close>: the conversion of an integer to a signed 32-bit value.\<close>

definition toInt32 :: "int \<Rightarrow> int" where
  "toInt32 x = (x + 2147483648) mod 4294967296 - 2147483648"

fun hashLoop :: "(nat \<Rightarrow> GraphicsRenderable) \<Rightarrow> nat list \<Rightarrow> int \<Rightarrow> int" where
  "hashLoop h [] hash = hash"
| "hashLoop h (r # rs) hash =
     (if \<not> st_visible (h r) then hashLoop h rs hash
      else hashLoop h rs (toInt32 (31 * hash + renderable_id (h r))))"

definition computeVisibleHash :: "'h Env \<Rightarrow> Scene \<Rightarrow> int" where
  "computeVisibleHash env s =
     (let hash = hashLoop (heap s) (renderables s) 23;
          hash = hash1 env hash
      in if hash = - 1 then 0 else hash)"

definition syncVisibility :: "'h Env \<Rightarrow> Scene \<Rightarrow> bool \<times> Scene" where
  "syncVisibility env s =
     (let newVisibleHash = computeVisibleHash env s
      in if newVisibleHash \<noteq> visibleHash s
         then (True, s\<lparr>boundingSphereVisibleDirty := True,
                        opacityAverage := calculateOpacityAverage s\<rparr>)
         else (False, s))"

section \<open>The scene's other operations\<close>

fun updateObjects :: "'h Env \<Rightarrow> GraphicsRenderObject list \<Rightarrow> Scene \<Rightarrow> Scene" where
  "updateObjects env [] s = s"
| "updateObjects env (ob # obs) s =
     updateObjects env obs
       (case renderableMap s (oref ob) of
          None \<Rightarrow> s
        | Some r \<Rightarrow> s\<lparr>heap := (heap s)(r := renderableUpdate env (heap s r))\<rparr>)"

fun updateAll :: "'h Env \<Rightarrow> nat list \<Rightarrow> Scene \<Rightarrow> Scene" where
  "updateAll env [] s = s"
| "updateAll env (r # rs) s =
     updateAll env rs (s\<lparr>heap := (heap s)(r := renderableUpdate env (heap s r))\<rparr>)"

definition update :: "'h Env \<Rightarrow> GraphicsRenderObject list option \<Rightarrow> bool \<Rightarrow> Scene \<Rightarrow> Scene" where
  "update env objects keepBoundingSphere s =
     (let s1 = (case objects of
                  Some obs \<Rightarrow> updateObjects env obs s
                | None \<Rightarrow> updateAll env (renderables s) s);
          s2 = (if \<not> keepBoundingSphere
                then s1\<lparr>boundingSphereDirty := True, boundingSphereVisibleDirty := True\<rparr>
                else snd (syncVisibility env s1));
          s3 = s2\<lparr>markerAverage := calculateMarkerAverage s2\<rparr>
      in s3\<lparr>opacityAverage := calculateOpacityAverage s3\<rparr>)"

definition needsCommit :: "Scene \<Rightarrow> bool" where
  "needsCommit s = (\<not> isEmpty (commitQueue s))"

definition has :: "Scene \<Rightarrow> GraphicsRenderObject \<Rightarrow> bool" where
  "has s ob = (renderableMap s (oref ob) \<noteq> None)"

fun disposeAll :: "nat list \<Rightarrow> (nat \<Rightarrow> GraphicsRenderable) \<Rightarrow> (nat \<Rightarrow> GraphicsRenderable)" where
  "disposeAll [] h = h"
| "disposeAll (r # rs) h = disposeAll rs (h(r := (h r)\<lparr>disposed := True\<rparr>))"

definition clear :: "Scene \<Rightarrow> Scene" where
  "clear s =
     s\<lparr>heap := disposeAll (renderables s) (heap s),
       renderables := [], primitives := [], volumes := [],
       renderableMap := Map.empty,
       boundingSphereDirty := True, boundingSphereVisibleDirty := True\<rparr>"

text \<open>The property getters. The two sphere getters write their caches.\<close>

definition get_count :: "Scene \<Rightarrow> nat" where
  "get_count s = length (renderables s)"

definition get_boundingSphere :: "'h Env \<Rightarrow> Scene \<Rightarrow> Sphere3D \<times> Scene" where
  "get_boundingSphere env s =
     (let s1 = (if boundingSphereDirty s
                then s\<lparr>boundingSphere :=
                         calculateBoundingSphere (boundaryHelper env)
                           (map (heap s) (renderables s)) False,
                       boundingSphereDirty := False\<rparr>
                else s)
      in (boundingSphere s1, s1))"

definition get_boundingSphereVisible :: "'h Env \<Rightarrow> Scene \<Rightarrow> Sphere3D \<times> Scene" where
  "get_boundingSphereVisible env s =
     (let s1 = (if boundingSphereVisibleDirty s
                then (let s' = s\<lparr>boundingSphereVisible :=
                                   calculateBoundingSphere (boundaryHelper env)
                                     (map (heap s) (renderables s)) True,
                                 boundingSphereVisibleDirty := False\<rparr>
                      in s'\<lparr>visibleHash := computeVisibleHash env s'\<rparr>)
                else s)
      in (boundingSphereVisible s1, s1))"

definition get_markerAverage :: "Scene \<Rightarrow> real" where
  "get_markerAverage s = markerAverage s"

definition get_opacityAverage :: "Scene \<Rightarrow> real" where
  "get_opacityAverage s = opacityAverage s"

section \<open>Notions used to state the properties\<close>

text \<open>
  The registry operations that a commit has carried out, replayed without the queue,
  the clock, the sort or the statistics: first the removals, in queue order, then the
  additions. \<open>processed env s k j\<close> is the scene in which the first \<open>k\<close> queued
  removals and then the first \<open>j\<close> queued additions have been carried out and the
  rest is still queued.
\<close>

definition applyRemovals :: "Scene \<Rightarrow> GraphicsRenderObject list \<Rightarrow> Scene" where
  "applyRemovals s obs = foldl remove s obs"

definition applyAdditions :: "'h Env \<Rightarrow> Scene \<Rightarrow> GraphicsRenderObject list \<Rightarrow> Scene" where
  "applyAdditions env s obs = foldl (\<lambda>s ob. snd (add env s ob)) s obs"

definition processed :: "'h Env \<Rightarrow> Scene \<Rightarrow> nat \<Rightarrow> nat \<Rightarrow> Scene" where
  "processed env s k j =
     (applyAdditions env (applyRemovals s (take k (removeList (commitQueue s))))
        (take j (addList (commitQueue s))))
     \<lparr>commitQueue := \<lparr>removeList = drop k (removeList (commitQueue s)),
                       addList = drop j (addList (commitQueue s))\<rparr>\<rparr>"

text \<open>
  The test at the end of each loop iteration, at counter value \<open>i\<close>, and the number of
  iterations after which a loop that starts at counter \<open>i\<close> with \<open>n\<close> queued entries
  returns \<^verbatim>\<open>false\<close>, if it does.
\<close>

definition exceeded :: "real \<Rightarrow> (nat \<Rightarrow> real) \<Rightarrow> nat \<Rightarrow> bool" where
  "exceeded maxTimeMs now i =
     (i mod commitBulkSize = 0 \<and> now (i div commitBulkSize) - now 0 > maxTimeMs)"

fun stopAt :: "real \<Rightarrow> (nat \<Rightarrow> real) \<Rightarrow> nat \<Rightarrow> nat \<Rightarrow> nat option" where
  "stopAt t now i 0 = None"
| "stopAt t now i (Suc n) =
     (if exceeded t now (i + 1) then Some 1 else map_option Suc (stopAt t now (i + 1) n))"

text \<open>The tail of \<^verbatim>\<open>commit\<close> once both loops have ended: the sort, then the
  opacity average. \<open>sortable\<close> says that no comparison of the sort throws.\<close>

definition sortAndRefresh :: "Scene \<Rightarrow> error + bool \<times> Scene" where
  "sortAndRefresh p =
     (case arraySort (\<lambda>a b. renderableSort (heap p a) (heap p b)) (renderables p) of
        Inl e \<Rightarrow> Inl e
      | Inr ordered \<Rightarrow>
          (let s3 = p\<lparr>renderables := ordered\<rparr>
           in Inr (True, s3\<lparr>opacityAverage := calculateOpacityAverage s3\<rparr>)))"

definition sortable :: "Scene \<Rightarrow> bool" where
  "sortable p =
     (\<forall>a\<in>set (renderables p). \<forall>b\<in>set (renderables p).
        renderableSort (heap p a) (heap p b) \<noteq> Inl TypeError)"

text \<open>
  The scene with every queued operation carried out, the identities that are live
  then, and the driving loop of the spec (2, 5): \<^verbatim>\<open>commit\<close> is called again
  while it returns \<^verbatim>\<open>false\<close>, at most \<open>n + 1\<close> times; call number \<open>m\<close> has
  the budget \<open>fst (calls m)\<close> and the clock \<open>snd (calls m)\<close>.
\<close>

definition drained :: "'h Env \<Rightarrow> Scene \<Rightarrow> Scene" where
  "drained env s =
     processed env s (length (removeList (commitQueue s))) (length (addList (commitQueue s)))"

definition liveAfterDrain :: "Scene \<Rightarrow> nat set" where
  "liveAfterDrain s =
     (dom (renderableMap s) - oref ` set (removeList (commitQueue s)))
       \<union> oref ` set (addList (commitQueue s))"

fun commitRepeatedly :: "'h Env \<Rightarrow> (nat \<Rightarrow> real \<times> (nat \<Rightarrow> real)) \<Rightarrow> nat \<Rightarrow> Scene \<Rightarrow> error + bool \<times> Scene" where
  "commitRepeatedly env calls 0 s = commit env (fst (calls 0)) (snd (calls 0)) s"
| "commitRepeatedly env calls (Suc n) s =
     (case commit env (fst (calls 0)) (snd (calls 0)) s of
        Inr (False, s1) \<Rightarrow> commitRepeatedly env (\<lambda>m. calls (Suc m)) n s1
      | r \<Rightarrow> r)"

text \<open>
  The renderables that the two averages range over, and the program identity that
  the draw order is meant to follow: the renderable's own \<^verbatim>\<open>colorBlended\<close>
  program or, without one, its own \<^verbatim>\<open>colorWboit\<close> program.
\<close>

definition visiblePrimitives :: "Scene \<Rightarrow> GraphicsRenderable list" where
  "visiblePrimitives s = filter st_visible (map (heap s) (primitives s))"

definition drawProgramId :: "GraphicsRenderable \<Rightarrow> int option" where
  "drawProgramId r = map_option program_id (orElse (getProgram r ColorBlended) (getProgram r ColorWboit))"

text \<open>
  Every address held by a collection of the scene has been allocated. \<open>blendedKey\<close>
  is the lexicographic sort key of a renderable that has a \<^verbatim>\<open>colorBlended\<close>
  program: program id, then material id, then id.
\<close>

definition allocated :: "Scene \<Rightarrow> bool" where
  "allocated s =
     (\<forall>r\<in>set (renderables s) \<union> set (primitives s) \<union> set (volumes s). r < nextRef s)"

definition blendedKey :: "GraphicsRenderable \<Rightarrow> int \<times> int \<times> int" where
  "blendedKey r =
     (case getProgram r ColorBlended of
        Some p \<Rightarrow> (program_id p, materialId r, renderable_id r)
      | None \<Rightarrow> (0, materialId r, renderable_id r))"

section \<open>A concrete environment\<close>

text \<open>
  Modelled from the spec: a boundary helper that follows 4.4, used where a property
  is evaluated on a concrete scene. The include pass sums the centres, the centre is
  fixed as their mean, and the radius pass grows the radius to reach every sphere from
  that centre; the distance is the sum of the coordinate distances, an upper bound of
  the Euclidean one that needs no square root.
\<close>

record CentroidState =
  cs_sum :: "real \<times> real \<times> real"
  cs_count :: nat
  cs_center :: "real \<times> real \<times> real"
  cs_radius :: real

definition distance :: "real \<times> real \<times> real \<Rightarrow> real \<times> real \<times> real \<Rightarrow> real" where
  "distance a b =
     (case a of (ax, ay, az) \<Rightarrow> case b of (bx, by, bz) \<Rightarrow>
        \<bar>ax - bx\<bar> + \<bar>ay - by\<bar> + \<bar>az - bz\<bar>)"

definition centroidHelper :: "CentroidState BoundaryHelper" where
  "centroidHelper =
     \<lparr>reset = \<lparr>cs_sum = (0, 0, 0), cs_count = 0, cs_center = (0, 0, 0), cs_radius = 0\<rparr>,
      includeSphere = (\<lambda>h sp. case cs_sum h of (x, y, z) \<Rightarrow> case center sp of (cx, cy, cz) \<Rightarrow>
         h\<lparr>cs_sum := (x + cx, y + cy, z + cz), cs_count := cs_count h + 1\<rparr>),
      finishedIncludeStep = (\<lambda>h. if cs_count h = 0 then h
         else case cs_sum h of (x, y, z) \<Rightarrow>
           h\<lparr>cs_center := (x / real (cs_count h), y / real (cs_count h), z / real (cs_count h))\<rparr>),
      radiusSphere = (\<lambda>h sp. h\<lparr>cs_radius := max (cs_radius h) (distance (cs_center h) (center sp) + radius sp)\<rparr>),
      getSphere = (\<lambda>h. \<lparr>center = cs_center h, radius = cs_radius h\<rparr>)\<rparr>"

text \<open>
  A factory for a scene created with the render variants of order-independent
  transparency: every renderable has a \<^verbatim>\<open>colorWboit\<close> program and no
  \<^verbatim>\<open>colorBlended\<close> one. Its renderables are visible, opaque and fully marked.
\<close>

definition wboitRenderable :: "nat \<Rightarrow> GraphicsRenderObject \<Rightarrow> GraphicsRenderable" where
  "wboitRenderable n ob =
     \<lparr>renderable_id = object_id ob, materialId = object_id ob, st_visible = True, st_alphaFactor = 1, v_alpha = 1,
      v_transparencyAverage = 0, v_dXrayShaded = None, v_markerAverage = 1,
      v_boundingSphere = \<lparr>center = (0, 0, 0), radius = 1\<rparr>,
      getProgram = (\<lambda>v. if v = ColorWboit then Some \<lparr>program_id = 10 - object_id ob\<rparr> else None),
      disposed = False\<rparr>"

definition wboitEnv :: "CentroidState Env" where
  "wboitEnv =
     \<lparr>boundaryHelper = centroidHelper, createRenderable = wboitRenderable,
      hash1 = (\<lambda>i. toInt32 (33 * i)), renderableUpdate = (\<lambda>r. r)\<rparr>"

definition mesh :: "nat \<Rightarrow> GraphicsRenderObject" where
  "mesh k = \<lparr>oref = k, object_id = int k, otype = ''mesh''\<rparr>"

definition twoPending :: Scene where
  "twoPending = create\<lparr>commitQueue := \<lparr>removeList = [], addList = [mesh 1, mesh 2]\<rparr>\<rparr>"

definition oneLive :: Scene where
  "oneLive = snd (add wboitEnv create (mesh 1))"

definition swapPending :: Scene where
  "swapPending = oneLive\<lparr>commitQueue := \<lparr>removeList = [mesh 1], addList = [mesh 2, mesh 3]\<rparr>\<rparr>"

text \<open>
  A scene with one live mesh and more than one batch of pending work: 120 removals
  of objects that were never added, and two additions. \<open>ticking\<close> is a clock that
  advances by one millisecond from one reading to the next.
\<close>

definition unregistered :: "GraphicsRenderObject list" where
  "unregistered = map mesh [10..<130]"

definition bulkPending :: Scene where
  "bulkPending = oneLive\<lparr>commitQueue := \<lparr>removeList = unregistered, addList = [mesh 2, mesh 3]\<rparr>\<rparr>"

definition ticking :: "nat \<Rightarrow> real" where
  "ticking n = real n"

text \<open>
  Further scenes: the live mesh after an \<^verbatim>\<open>update()\<close>, and the same
  scene with the removal of that mesh queued; two live meshes of which the environment
  has hidden the second; and a volumetric object.
\<close>

definition markedScene :: Scene where
  "markedScene = update wboitEnv None False oneLive"

definition removalPending :: Scene where
  "removalPending = markedScene\<lparr>commitQueue := \<lparr>removeList = [mesh 1], addList = []\<rparr>\<rparr>"

definition hiddenSecond :: Scene where
  "hiddenSecond =
     (let s = snd (add wboitEnv oneLive (mesh 2))
      in s\<lparr>heap := (heap s)(1 := (heap s 1)\<lparr>st_visible := False, v_alpha := 0.3\<rparr>)\<rparr>)"

definition volume :: "nat \<Rightarrow> GraphicsRenderObject" where
  "volume k = \<lparr>oref = k, object_id = int k, otype = ''direct-volume''\<rparr>"

section \<open>The commit loops\<close>

declare removeLoop.simps [simp del] addLoop.simps [simp del]

lemma commitQueue_remove [simp]: "commitQueue (remove s ob) = commitQueue s"
  by (simp add: remove_def split: option.splits)

lemma commitQueue_add [simp]: "commitQueue (snd (add env s ob)) = commitQueue s"
  by (simp add: add_def Let_def split: option.splits)

lemma remove_commitQueue_update: "remove (s\<lparr>commitQueue := q\<rparr>) ob = (remove s ob)\<lparr>commitQueue := q\<rparr>"
  by (simp add: remove_def split: option.splits)

lemma add_commitQueue_update: "snd (add env (s\<lparr>commitQueue := q\<rparr>) ob) = (snd (add env s ob))\<lparr>commitQueue := q\<rparr>"
  by (simp add: add_def Let_def split: option.splits)

lemma applyRemovals_commitQueue_update:
  "applyRemovals (s\<lparr>commitQueue := q\<rparr>) obs = (applyRemovals s obs)\<lparr>commitQueue := q\<rparr>"
  unfolding applyRemovals_def
  by (induction obs arbitrary: s) (simp_all add: remove_commitQueue_update)

lemma applyAdditions_commitQueue_update:
  "applyAdditions env (s\<lparr>commitQueue := q\<rparr>) obs = (applyAdditions env s obs)\<lparr>commitQueue := q\<rparr>"
  unfolding applyAdditions_def
  by (induction obs arbitrary: s) (simp_all add: add_commitQueue_update)

lemma commitQueue_applyRemovals [simp]: "commitQueue (applyRemovals s obs) = commitQueue s"
  unfolding applyRemovals_def by (induction obs arbitrary: s) simp_all

lemma commitQueue_applyAdditions [simp]: "commitQueue (applyAdditions env s obs) = commitQueue s"
  unfolding applyAdditions_def by (induction obs arbitrary: s) simp_all

lemma removeList_update_same: "removeList q = R \<Longrightarrow> q\<lparr>removeList := R\<rparr> = q"
  by (cases q) simp

lemma addList_update_same: "addList q = A \<Longrightarrow> q\<lparr>addList := A\<rparr> = q"
  by (cases q) simp

lemma removeLoop_Nil:
  "removeList (commitQueue s) = [] \<Longrightarrow> removeLoop t now i s = Break i s"
  by (subst removeLoop.simps) (simp add: tryGetRemove_def)

lemma removeLoop_Cons:
  "removeList (commitQueue s) = ob # R \<Longrightarrow>
   removeLoop t now i s =
     (if exceeded t now (i + 1)
      then ReturnFalse (remove (s\<lparr>commitQueue := (commitQueue s)\<lparr>removeList := R\<rparr>\<rparr>) ob)
      else removeLoop t now (i + 1) (remove (s\<lparr>commitQueue := (commitQueue s)\<lparr>removeList := R\<rparr>\<rparr>) ob))"
  by (subst removeLoop.simps) (simp add: tryGetRemove_def exceeded_def Let_def)

lemma removeLoop_char:
  "removeList (commitQueue s) = R \<Longrightarrow>
   removeLoop t now i s =
     (case stopAt t now i (length R) of
        None \<Rightarrow> Break (i + length R) ((applyRemovals s R)\<lparr>commitQueue := (commitQueue s)\<lparr>removeList := []\<rparr>\<rparr>)
      | Some k \<Rightarrow> ReturnFalse ((applyRemovals s (take k R))\<lparr>commitQueue := (commitQueue s)\<lparr>removeList := drop k R\<rparr>\<rparr>))"
proof (induction R arbitrary: s i)
  case Nil
  then show ?case
    by (simp add: removeLoop_Nil applyRemovals_def removeList_update_same)
next
  case (Cons ob R)
  let ?s1 = "remove (s\<lparr>commitQueue := (commitQueue s)\<lparr>removeList := R\<rparr>\<rparr>) ob"
  have q: "removeList (commitQueue ?s1) = R" by simp
  have cq: "commitQueue ?s1 = (commitQueue s)\<lparr>removeList := R\<rparr>" by simp
  show ?case
    unfolding removeLoop_Cons [OF Cons.prems] Cons.IH [OF q] cq
    by (simp add: applyRemovals_def remove_commitQueue_update
            applyRemovals_commitQueue_update [unfolded applyRemovals_def]
          split: option.splits)
qed

lemma addLoop_Nil:
  "addList (commitQueue s) = [] \<Longrightarrow> addLoop env t now i s = Break i s"
  by (subst addLoop.simps) (simp add: tryGetAdd_def)

lemma addLoop_Cons:
  "addList (commitQueue s) = ob # A \<Longrightarrow>
   addLoop env t now i s =
     (if exceeded t now (i + 1)
      then ReturnFalse (snd (add env (s\<lparr>commitQueue := (commitQueue s)\<lparr>addList := A\<rparr>\<rparr>) ob))
      else addLoop env t now (i + 1) (snd (add env (s\<lparr>commitQueue := (commitQueue s)\<lparr>addList := A\<rparr>\<rparr>) ob)))"
  by (subst addLoop.simps) (simp add: tryGetAdd_def exceeded_def Let_def)

lemma addLoop_char:
  "addList (commitQueue s) = A \<Longrightarrow>
   addLoop env t now i s =
     (case stopAt t now i (length A) of
        None \<Rightarrow> Break (i + length A) ((applyAdditions env s A)\<lparr>commitQueue := (commitQueue s)\<lparr>addList := []\<rparr>\<rparr>)
      | Some k \<Rightarrow> ReturnFalse ((applyAdditions env s (take k A))\<lparr>commitQueue := (commitQueue s)\<lparr>addList := drop k A\<rparr>\<rparr>))"
proof (induction A arbitrary: s i)
  case Nil
  then show ?case
    by (simp add: addLoop_Nil applyAdditions_def addList_update_same)
next
  case (Cons ob A)
  let ?s1 = "snd (add env (s\<lparr>commitQueue := (commitQueue s)\<lparr>addList := A\<rparr>\<rparr>) ob)"
  have q: "addList (commitQueue ?s1) = A" by simp
  have cq: "commitQueue ?s1 = (commitQueue s)\<lparr>addList := A\<rparr>" by simp
  show ?case
    unfolding addLoop_Cons [OF Cons.prems] Cons.IH [OF q] cq
    by (simp add: applyAdditions_def add_commitQueue_update
            applyAdditions_commitQueue_update [unfolded applyAdditions_def]
          split: option.splits)
qed

lemma commit_char:
  "commit env t now s =
     (case stopAt t now 0 (length (removeList (commitQueue s))) of
        Some k \<Rightarrow> Inr (False, processed env s k 0)
      | None \<Rightarrow>
          (case stopAt t now (length (removeList (commitQueue s))) (length (addList (commitQueue s))) of
             Some j \<Rightarrow> Inr (False, processed env s (length (removeList (commitQueue s))) j)
           | None \<Rightarrow> sortAndRefresh (processed env s (length (removeList (commitQueue s)))
                        (length (addList (commitQueue s))))))"
proof -
  obtain R A where q: "commitQueue s = \<lparr>removeList = R, addList = A\<rparr>"
    by (cases "commitQueue s") simp
  have R: "removeList (commitQueue s) = R" and A: "addList (commitQueue s) = A"
    using q by simp_all
  let ?s1 = "(applyRemovals s R)\<lparr>commitQueue := \<lparr>removeList = [], addList = A\<rparr>\<rparr>"
  have A1: "addList (commitQueue ?s1) = A" by simp
  have rl: "removeLoop t now 0 s =
     (case stopAt t now 0 (length R) of
        None \<Rightarrow> Break (length R) ?s1
      | Some k \<Rightarrow> ReturnFalse (processed env s k 0))"
    unfolding removeLoop_char [OF R]
    by (simp add: q processed_def applyAdditions_def split: option.splits)
  have al: "addLoop env t now (length R) ?s1 =
     (case stopAt t now (length R) (length A) of
        None \<Rightarrow> Break (length R + length A) (processed env s (length R) (length A))
      | Some j \<Rightarrow> ReturnFalse (processed env s (length R) j))"
    unfolding addLoop_char [OF A1]
    by (simp add: q processed_def applyAdditions_commitQueue_update split: option.splits)
  show ?thesis
    unfolding commit_def rl R A
    by (simp add: al sortAndRefresh_def split: option.splits)
qed

lemma stopAt_Some:
  "stopAt t now i n = Some k \<Longrightarrow> 0 < k \<and> k \<le> n \<and> exceeded t now (i + k)"
proof (induction n arbitrary: i k)
  case 0
  then show ?case by simp
next
  case (Suc n)
  show ?case
  proof (cases "exceeded t now (i + 1)")
    case True
    with Suc.prems show ?thesis by auto
  next
    case False
    with Suc.prems obtain k' where k': "stopAt t now (i + 1) n = Some k'" "k = Suc k'"
      by auto
    from Suc.IH [OF k'(1)] k'(2) show ?thesis by simp
  qed
qed

lemma sortAndRefresh_Inr:
  "sortAndRefresh p = Inr (b, s') \<Longrightarrow> b \<and> commitQueue s' = commitQueue p
     \<and> markerAverage s' = markerAverage p \<and> renderableMap s' = renderableMap p"
  by (auto simp: sortAndRefresh_def Let_def split: sum.splits)

lemma commitQueue_processed [simp]:
  "commitQueue (processed env s k j) =
     \<lparr>removeList = drop k (removeList (commitQueue s)), addList = drop j (addList (commitQueue s))\<rparr>"
  by (simp add: processed_def)

lemma stopAt_first_batch:
  "i < commitBulkSize \<Longrightarrow> commitBulkSize \<le> i + n \<Longrightarrow> maxTimeMs < now 1 - now 0 \<Longrightarrow>
   stopAt maxTimeMs now i n = Some (commitBulkSize - i)"
proof (induction n arbitrary: i)
  case 0
  then show ?case by simp
next
  case (Suc n)
  show ?case
  proof (cases "i + 1 = commitBulkSize")
    case True
    then have "exceeded maxTimeMs now (i + 1)"
      using Suc.prems(3) by (simp add: exceeded_def commitBulkSize_def)
    with True show ?thesis by simp
  next
    case False
    with Suc.prems have lt: "i + 1 < commitBulkSize" by simp
    then have "\<not> exceeded maxTimeMs now (i + 1)"
      by (simp add: exceeded_def)
    moreover have "stopAt maxTimeMs now (i + 1) n = Some (commitBulkSize - (i + 1))"
      using Suc.prems lt by (intro Suc.IH) simp_all
    ultimately show ?thesis using lt by simp
  qed
qed

lemma stopAt_below_batch:
  "i + n < commitBulkSize \<Longrightarrow> stopAt t now i n = None"
proof (induction n arbitrary: i)
  case 0
  then show ?case by simp
next
  case (Suc n)
  then have "\<not> exceeded t now (i + 1)" by (simp add: exceeded_def)
  moreover have "stopAt t now (i + 1) n = None" using Suc.prems by (intro Suc.IH) simp
  ultimately show ?case by simp
qed

lemma stopAt_never:
  "(\<And>i. \<not> exceeded t now i) \<Longrightarrow> stopAt t now i n = None"
  by (induction n arbitrary: i) simp_all

lemma exceeded_batch: "exceeded t now i \<Longrightarrow> 0 < i \<Longrightarrow> commitBulkSize \<le> i"
  by (auto simp: exceeded_def commitBulkSize_def)

lemma applyRemovals_append:
  "applyRemovals s (xs @ ys) = applyRemovals (applyRemovals s xs) ys"
  by (simp add: applyRemovals_def)

lemma applyAdditions_append:
  "applyAdditions env s (xs @ ys) = applyAdditions env (applyAdditions env s xs) ys"
  by (simp add: applyAdditions_def)

lemma drained_processed:
  assumes "k \<le> length (removeList (commitQueue s))" "j \<le> length (addList (commitQueue s))"
    and "0 < j \<Longrightarrow> k = length (removeList (commitQueue s))"
  shows "drained env (processed env s k j) = drained env s"
proof -
  let ?R = "removeList (commitQueue s)" and ?A = "addList (commitQueue s)"
  have R: "applyRemovals s ?R = applyRemovals (applyRemovals s (take k ?R)) (drop k ?R)"
    by (simp add: applyRemovals_append [symmetric])
  have A: "\<And>x. applyAdditions env x ?A = applyAdditions env (applyAdditions env x (take j ?A)) (drop j ?A)"
    by (simp add: applyAdditions_append [symmetric])
  show ?thesis
  proof (cases "j = 0")
    case True
    then show ?thesis
      unfolding drained_def
      by (simp add: processed_def applyRemovals_commitQueue_update applyAdditions_commitQueue_update
            R [symmetric] applyAdditions_def [of env _ "[]"])
  next
    case False
    with assms(3) have k: "k = length ?R" by simp
    show ?thesis
      unfolding drained_def
      by (simp add: processed_def k applyRemovals_commitQueue_update applyAdditions_commitQueue_update
            A [symmetric] applyRemovals_def [of _ "[]"])
  qed
qed

lemma pending_processed:
  "k \<le> length (removeList (commitQueue s)) \<Longrightarrow> j \<le> length (addList (commitQueue s)) \<Longrightarrow>
   pending (commitQueue (processed env s k j)) = pending (commitQueue s) - (k + j)"
  by (simp add: pending_def)

lemma insertSorted_total:
  "\<forall>y\<in>set ys. cmp x y \<noteq> Inl TypeError \<Longrightarrow>
   \<exists>zs. insertSorted cmp x ys = Inr zs \<and> set zs = insert x (set ys)"
proof (induction ys)
  case Nil
  then show ?case by simp
next
  case (Cons y ys)
  then obtain zs where zs: "insertSorted cmp x ys = Inr zs" "set zs = insert x (set ys)"
    by auto
  from Cons.prems obtain v where v: "cmp x y = Inr v"
    by (cases "cmp x y") (auto, metis error.exhaust)
  show ?case using zs v by auto
qed

lemma arraySort_total:
  "\<forall>a\<in>set xs. \<forall>b\<in>set xs. cmp a b \<noteq> Inl TypeError \<Longrightarrow>
   \<exists>ys. arraySort cmp xs = Inr ys \<and> set ys = set xs"
proof (induction xs)
  case Nil
  then show ?case by simp
next
  case (Cons x xs)
  then obtain ys where ys: "arraySort cmp xs = Inr ys" "set ys = set xs"
    by auto
  have "\<forall>y\<in>set ys. cmp x y \<noteq> Inl TypeError" using Cons.prems ys(2) by simp
  from insertSorted_total [of ys cmp x, OF this] ys show ?case by auto
qed

lemma sortAndRefresh_sortable:
  "sortable p \<Longrightarrow> \<exists>final. sortAndRefresh p = Inr (True, final)"
proof -
  assume "sortable p"
  then have "\<forall>a\<in>set (renderables p). \<forall>b\<in>set (renderables p).
      (\<lambda>a b. renderableSort (heap p a) (heap p b)) a b \<noteq> Inl TypeError"
    by (simp add: sortable_def)
  from arraySort_total [of "renderables p" "\<lambda>a b. renderableSort (heap p a) (heap p b)", OF this] show ?thesis
    by (auto simp: sortAndRefresh_def Let_def)
qed

lemma dom_remove: "dom (renderableMap (remove s ob)) = dom (renderableMap s) - {oref ob}"
  by (auto simp: remove_def split: option.splits if_splits)

lemma dom_add: "dom (renderableMap (snd (add env s ob))) = insert (oref ob) (dom (renderableMap s))"
  by (auto simp: add_def Let_def split: option.splits if_splits)

lemma dom_applyRemovals:
  "dom (renderableMap (applyRemovals s obs)) = dom (renderableMap s) - oref ` set obs"
  unfolding applyRemovals_def
  by (induction obs arbitrary: s) (auto simp: dom_remove)

lemma dom_applyAdditions:
  "dom (renderableMap (applyAdditions env s obs)) = dom (renderableMap s) \<union> oref ` set obs"
  unfolding applyAdditions_def
  by (induction obs arbitrary: s) (auto simp: dom_add)

lemma dom_drained: "dom (renderableMap (drained env s)) = liveAfterDrain s"
  by (simp add: drained_def processed_def liveAfterDrain_def dom_applyRemovals dom_applyAdditions)

lemma batch_arith:
  fixes p k :: nat
  assumes "commitBulkSize \<le> k" "k \<le> p" "n \<le> (p - k) div commitBulkSize"
  shows "Suc n \<le> p div commitBulkSize"
proof -
  have "(p - k) div commitBulkSize \<le> (p - commitBulkSize) div commitBulkSize"
    using assms(1) by (intro div_le_mono) simp
  also have "\<dots> = p div commitBulkSize - 1"
    using assms by (simp add: commitBulkSize_def)
  finally show ?thesis using assms by (simp add: commitBulkSize_def) 
qed

lemma commitRepeatedly_reaches:
  "\<exists>n\<le>pending (commitQueue s) div commitBulkSize.
     commitRepeatedly env calls n s = sortAndRefresh (drained env s)"
proof (induction "pending (commitQueue s)" arbitrary: s calls rule: less_induct)
  case less
  let ?R = "removeList (commitQueue s)" and ?A = "addList (commitQueue s)"
  let ?t = "fst (calls 0)" and ?now = "snd (calls 0)"
  have step: "\<exists>n\<le>pending (commitQueue s) div commitBulkSize.
      commitRepeatedly env calls n s = sortAndRefresh (drained env s)"
    if c: "commit env ?t ?now s = Inr (False, processed env s k j)"
      and k: "k \<le> length ?R" and j: "j \<le> length ?A" and jk: "0 < j \<Longrightarrow> k = length ?R"
      and big: "commitBulkSize \<le> k + j" for k j
  proof -
    let ?s1 = "processed env s k j"
    have p1: "pending (commitQueue ?s1) = pending (commitQueue s) - (k + j)"
      using k j by (rule pending_processed)
    have kj: "k + j \<le> pending (commitQueue s)" using k j by (simp add: pending_def)
    have "0 < k + j" using big unfolding commitBulkSize_def by arith
    with p1 kj have lt: "pending (commitQueue ?s1) < pending (commitQueue s)" by linarith
    have d: "drained env ?s1 = drained env s"
      using drained_processed [where env = env, OF k j jk] by simp
    from less.hyps [OF lt, of "\<lambda>m. calls (Suc m)"]
    obtain n where n: "n \<le> pending (commitQueue ?s1) div commitBulkSize"
      "commitRepeatedly env (\<lambda>m. calls (Suc m)) n ?s1 = sortAndRefresh (drained env ?s1)"
      by blast
    have "Suc n \<le> pending (commitQueue s) div commitBulkSize"
      using n(1) unfolding p1 by (rule batch_arith [OF big kj])
    moreover have "commitRepeatedly env calls (Suc n) s = sortAndRefresh (drained env s)"
      using c n(2) d by simp
    ultimately show ?thesis by blast
  qed
  show ?case
  proof (cases "stopAt ?t ?now 0 (length ?R)")
    case (Some k)
    from stopAt_Some [OF Some] have k: "0 < k" "k \<le> length ?R" "exceeded ?t ?now k" by simp_all
    have c: "commit env ?t ?now s = Inr (False, processed env s k 0)"
      using Some by (simp add: commit_char)
    show ?thesis
      using k exceeded_batch [OF k(3) k(1)] by (intro step [OF c]) simp_all
  next
    case None
    note rNone = None
    show ?thesis
    proof (cases "stopAt ?t ?now (length ?R) (length ?A)")
      case (Some j)
      from stopAt_Some [OF Some] have j: "0 < j" "j \<le> length ?A" "exceeded ?t ?now (length ?R + j)"
        by simp_all
      have c: "commit env ?t ?now s = Inr (False, processed env s (length ?R) j)"
        using Some rNone by (simp add: commit_char)
      show ?thesis
        using j exceeded_batch [OF j(3)] by (intro step [OF c]) simp_all
    next
      case None
      with rNone have "commit env ?t ?now s = sortAndRefresh (drained env s)"
        by (simp add: commit_char drained_def)
      then have "commitRepeatedly env calls 0 s = sortAndRefresh (drained env s)" by simp
      then show ?thesis by blast
    qed
  qed
qed

lemma swapPending_commit: "\<exists>s'. commit wboitEnv 0 (\<lambda>n. 0) swapPending = Inr (True, s')"
  by (simp add: commit_char swapPending_def oneLive_def create_def add_def mesh_def Let_def
        sortAndRefresh_def processed_def applyRemovals_def applyAdditions_def remove_def
        arraySetRemove_def wboitEnv_def wboitRenderable_def renderableSort_def orElse_def exceeded_def)

lemma averages_remove [simp]:
  "opacityAverage (remove s ob) = opacityAverage s" "markerAverage (remove s ob) = markerAverage s"
  by (simp_all add: remove_def split: option.splits)

lemma averages_add [simp]:
  "opacityAverage (snd (add env s ob)) = opacityAverage s"
  "markerAverage (snd (add env s ob)) = markerAverage s"
  by (simp_all add: add_def Let_def split: option.splits)

lemma averages_applyRemovals [simp]:
  "opacityAverage (applyRemovals s obs) = opacityAverage s"
  "markerAverage (applyRemovals s obs) = markerAverage s"
  unfolding applyRemovals_def by (induction obs arbitrary: s) simp_all

lemma averages_applyAdditions [simp]:
  "opacityAverage (applyAdditions env s obs) = opacityAverage s"
  "markerAverage (applyAdditions env s obs) = markerAverage s"
  unfolding applyAdditions_def by (induction obs arbitrary: s) simp_all

lemma subseq_remove1: "subseq (remove1 x xs) xs"
  by (induction xs) auto

lemma renderables_remove: "subseq (renderables (remove s ob)) (renderables s)"
  by (simp add: remove_def arraySetRemove_def subseq_remove1 split: option.splits)

lemma renderables_applyRemovals: "subseq (renderables (applyRemovals s obs)) (renderables s)"
  unfolding applyRemovals_def
proof (induction obs arbitrary: s)
  case Nil
  then show ?case by simp
next
  case (Cons ob obs)
  have "subseq (renderables (foldl remove (remove s ob) obs)) (renderables (remove s ob))"
    by (rule Cons.IH)
  from subseq_order.trans [OF this renderables_remove [of s ob]] show ?case by simp
qed

lemma renderables_add: "\<exists>new. renderables (snd (add env s ob)) = renderables s @ new"
  by (simp add: add_def Let_def split: option.splits)

lemma renderables_applyAdditions:
  "\<exists>new. renderables (applyAdditions env s obs) = renderables s @ new"
  unfolding applyAdditions_def
proof (induction obs arbitrary: s)
  case Nil
  then show ?case by simp
next
  case (Cons ob obs)
  obtain n1 where n1: "renderables (snd (add env s ob)) = renderables s @ n1"
    using renderables_add by blast
  obtain n2 where "renderables (foldl (\<lambda>s ob. snd (add env s ob)) (snd (add env s ob)) obs)
      = renderables (snd (add env s ob)) @ n2"
    using Cons.IH by blast
  then show ?case using n1 by simp
qed

lemma renderables_processed:
  "\<exists>kept new. renderables (processed env s k j) = kept @ new \<and> subseq kept (renderables s)"
proof -
  let ?p = "applyRemovals s (take k (removeList (commitQueue s)))"
  obtain new where "renderables (applyAdditions env ?p (take j (addList (commitQueue s))))
      = renderables ?p @ new"
    using renderables_applyAdditions by blast
  then have "renderables (processed env s k j) = renderables ?p @ new"
    by (simp add: processed_def)
  with renderables_applyRemovals [of s] show ?thesis by blast
qed

lemma commit_incomplete:
  assumes "commit env t now s = Inr (False, s')"
  shows "\<exists>k j. s' = processed env s k j \<and> 0 < k + j"
proof (cases "stopAt t now 0 (length (removeList (commitQueue s)))")
  case (Some k)
  with assms stopAt_Some [OF Some] show ?thesis by (auto simp: commit_char)
next
  case None
  note rNone = None
  show ?thesis
  proof (cases "stopAt t now (length (removeList (commitQueue s))) (length (addList (commitQueue s)))")
    case (Some j)
    with assms rNone stopAt_Some [OF Some] show ?thesis by (auto simp: commit_char)
  next
    case None
    with assms rNone sortAndRefresh_Inr show ?thesis by (fastforce simp: commit_char)
  qed
qed

lemma commit_incomplete_exceeded:
  assumes "commit env t now s = Inr (False, s')"
  shows "\<exists>k j. s' = processed env s k j
     \<and> k \<le> length (removeList (commitQueue s)) \<and> j \<le> length (addList (commitQueue s))
     \<and> 0 < k + j \<and> exceeded t now (k + j)"
proof (cases "stopAt t now 0 (length (removeList (commitQueue s)))")
  case (Some k)
  with assms have "s' = processed env s k 0" by (simp add: commit_char)
  with stopAt_Some [OF Some] show ?thesis
    by (intro exI [of _ k] exI [of _ 0]) simp
next
  case None
  note rNone = None
  show ?thesis
  proof (cases "stopAt t now (length (removeList (commitQueue s))) (length (addList (commitQueue s)))")
    case (Some j)
    with assms rNone have "s' = processed env s (length (removeList (commitQueue s))) j"
      by (simp add: commit_char)
    with stopAt_Some [OF Some] show ?thesis
      by (intro exI [of _ "length (removeList (commitQueue s))"] exI [of _ j]) simp
  next
    case None
    with assms rNone sortAndRefresh_Inr show ?thesis by (fastforce simp: commit_char)
  qed
qed

lemma applyRemovals_unregistered:
  "\<forall>ob\<in>set obs. renderableMap s (oref ob) = None \<Longrightarrow> applyRemovals s obs = s"
  unfolding applyRemovals_def
  by (induction obs arbitrary: s) (simp_all add: remove_def)

lemma length_unregistered: "length unregistered = 120"
  by (simp add: unregistered_def)

lemma bulkPending_queue:
  "removeList (commitQueue bulkPending) = unregistered"
  "addList (commitQueue bulkPending) = [mesh 2, mesh 3]"
  "pending (commitQueue bulkPending) = 122"
  by (simp_all add: bulkPending_def pending_def length_unregistered)

lemma bulkPending_removals:
  "applyRemovals bulkPending unregistered = bulkPending"
  by (rule applyRemovals_unregistered)
     (auto simp: bulkPending_def oneLive_def add_def create_def mesh_def Let_def unregistered_def)

lemma renderableSort_wboit:
  "getProgram a ColorWboit \<noteq> None \<Longrightarrow> renderableSort a b \<noteq> Inl TypeError"
  by (auto simp: renderableSort_def orElse_def Let_def split: option.splits)

lemma sortable_wboit:
  "\<forall>r\<in>set (renderables p). getProgram (heap p r) ColorWboit \<noteq> None \<Longrightarrow> sortable p"
  by (simp add: sortable_def renderableSort_wboit)

lemma bulkPending_drained_eq:
  "drained wboitEnv bulkPending =
     (applyAdditions wboitEnv bulkPending [mesh 2, mesh 3])
       \<lparr>commitQueue := \<lparr>removeList = [], addList = []\<rparr>\<rparr>"
  by (simp add: drained_def processed_def bulkPending_queue bulkPending_removals)

lemma bulkPending_drained:
  "renderables (drained wboitEnv bulkPending) = [0, 1, 2]"
  "heap (drained wboitEnv bulkPending) =
     (\<lambda>r. unallocated)(0 := wboitRenderable 0 (mesh 1), 1 := wboitRenderable 1 (mesh 2),
        2 := wboitRenderable 2 (mesh 3))"
  unfolding bulkPending_drained_eq
  by (simp_all add: bulkPending_def oneLive_def applyAdditions_def add_def create_def mesh_def
        Let_def wboitEnv_def numeral_2_eq_2)

lemma bulkPending_sortable: "sortable (drained wboitEnv bulkPending)"
  by (rule sortable_wboit) (simp add: bulkPending_drained wboitRenderable_def)

lemma bulkPending_first_call:
  "commit wboitEnv 0 ticking bulkPending = Inr (False, processed wboitEnv bulkPending 100 0)"
proof -
  have "stopAt 0 ticking 0 (length unregistered) = Some (commitBulkSize - 0)"
    by (rule stopAt_first_batch) (simp_all add: commitBulkSize_def ticking_def length_unregistered)
  then show ?thesis
    by (simp add: commit_char bulkPending_queue commitBulkSize_def)
qed

lemma bulkPending_live: "liveAfterDrain bulkPending = {1, 2, 3}"
  by (auto simp: liveAfterDrain_def bulkPending_def oneLive_def add_def create_def mesh_def
        Let_def unregistered_def)

section \<open>Statistics, spheres and the fingerprint\<close>

lemma markerLoop_eq:
  "markerLoop h ps c a =
     (c + length (filter (\<lambda>p. st_visible (h p)) ps),
      a + sum_list (map (\<lambda>p. v_markerAverage (h p)) (filter (\<lambda>p. st_visible (h p)) ps)))"
  by (induction ps arbitrary: c a) auto

lemma opacityLoop_eq:
  "opacityLoop h ps c a =
     (c + length (filter (\<lambda>p. st_visible (h p)) ps),
      a + sum_list (map (\<lambda>p. opacityTerm (h p)) (filter (\<lambda>p. st_visible (h p)) ps)))"
  by (induction ps arbitrary: c a) auto

lemma calculateOpacityAverage_mean:
  "calculateOpacityAverage s =
     (if visiblePrimitives s = [] then 0
      else sum_list (map opacityTerm (visiblePrimitives s)) / real (length (visiblePrimitives s)))"
  by (auto simp: calculateOpacityAverage_def opacityLoop_eq visiblePrimitives_def filter_map o_def)

lemma calculateMarkerAverage_mean:
  "calculateMarkerAverage s =
     (if visiblePrimitives s = [] then 0
      else sum_list (map v_markerAverage (visiblePrimitives s)) / real (length (visiblePrimitives s)))"
  by (auto simp: calculateMarkerAverage_def markerLoop_eq visiblePrimitives_def filter_map o_def)

lemma opacityTerm_formula:
  "opacityTerm p = (1 - v_transparencyAverage p) * clamp (v_alpha p * st_alphaFactor p) 0 1
      * (if v_dXrayShaded p = Some True then 0.5 else 1)"
  by (simp add: opacityTerm_def Let_def split: option.splits bool.splits)

lemma visiblePrimitives_add_volume:
  assumes "\<forall>r\<in>set (primitives s). r < nextRef s" "otype ob = ''direct-volume''"
  shows "visiblePrimitives (snd (add env s ob)) = visiblePrimitives s"
  using assms
  by (auto simp: visiblePrimitives_def add_def Let_def split: option.splits intro!: filter_cong map_cong arg_cong [where f = "filter st_visible"])

lemma hiddenSecond_fields:
  "primitives hiddenSecond = [0, 1]" "nextRef hiddenSecond = 2"
  "visiblePrimitives hiddenSecond = [wboitRenderable 0 (mesh 1)]"
  by (simp_all add: hiddenSecond_def oneLive_def add_def create_def mesh_def Let_def wboitEnv_def
        visiblePrimitives_def wboitRenderable_def)

lemma includeLoop_visible:
  "includeLoop bh True rs h = includeLoop bh False (filter st_visible rs) h"
  by (induction rs arbitrary: h) simp_all

lemma radiusLoop_visible:
  "radiusLoop bh True rs h = radiusLoop bh False (filter st_visible rs) h"
  by (induction rs arbitrary: h) simp_all

lemma calculateBoundingSphere_visible:
  "calculateBoundingSphere bh rs True = calculateBoundingSphere bh (filter st_visible rs) False"
  by (simp add: calculateBoundingSphere_def includeLoop_visible radiusLoop_visible)

lemma computeVisibleHash_cong:
  "heap s' = heap s \<Longrightarrow> renderables s' = renderables s \<Longrightarrow>
   computeVisibleHash env s' = computeVisibleHash env s"
  by (simp add: computeVisibleHash_def)

lemma computeVisibleHash_not_sentinel: "computeVisibleHash env s \<noteq> - 1"
  by (simp add: computeVisibleHash_def Let_def)

lemma oneLive_fields:
  "boundingSphereVisibleDirty oneLive" "renderables oneLive = [0]"
  "heap oneLive 0 = wboitRenderable 0 (mesh 1)"
  by (simp_all add: oneLive_def add_def create_def mesh_def Let_def wboitEnv_def)

lemma calculateBoundingSphere_Nil:
  "calculateBoundingSphere bh [] onlyVisible = getSphere bh (finishedIncludeStep bh (reset bh))"
  by (simp add: calculateBoundingSphere_def)

lemma averages_of_no_primitives:
  "primitives s = [] \<Longrightarrow> calculateMarkerAverage s = 0 \<and> calculateOpacityAverage s = 0"
  by (simp add: calculateMarkerAverage_def calculateOpacityAverage_def)

lemma primitives_updateObjects [simp]: "primitives (updateObjects env obs s) = primitives s"
  by (induction obs arbitrary: s) (simp_all split: option.splits)

lemma primitives_updateAll [simp]: "primitives (updateAll env rs s) = primitives s"
  by (induction rs arbitrary: s) simp_all

lemma primitives_syncVisibility [simp]: "primitives (snd (syncVisibility env s)) = primitives s"
  by (simp add: syncVisibility_def Let_def)

lemma update_averages:
  "markerAverage (update env objects keep s) = calculateMarkerAverage (update env objects keep s)"
  "opacityAverage (update env objects keep s) = calculateOpacityAverage (update env objects keep s)"
  by (simp_all add: update_def Let_def calculateMarkerAverage_def calculateOpacityAverage_def)

lemma primitives_update [simp]: "primitives (update env objects keep s) = primitives s"
  by (simp add: update_def Let_def split: option.splits)

lemma markedScene_averages: "markerAverage markedScene = 1" "opacityAverage markedScene = 1"
  by (simp_all add: markedScene_def update_averages calculateMarkerAverage_mean
        calculateOpacityAverage_mean visiblePrimitives_def,
      simp_all add: update_def Let_def oneLive_def add_def create_def mesh_def wboitEnv_def
        wboitRenderable_def opacityTerm_def clamp_def)

lemma twoPending_commit:
  "\<exists>s'. commit wboitEnv 0 (\<lambda>n. 0) twoPending = Inr (True, s')
     \<and> renderables s' = [0, 1] \<and> primitives s' = [0, 1]
     \<and> heap s' 0 = wboitRenderable 0 (mesh 1) \<and> heap s' (Suc 0) = wboitRenderable 1 (mesh 2)
     \<and> markerAverage s' = 0 \<and> opacityAverage s' = 1 \<and> visibleHash s' = - 1"
  by (simp add: commit_char twoPending_def create_def add_def mesh_def Let_def
        sortAndRefresh_def processed_def applyRemovals_def applyAdditions_def
        wboitEnv_def wboitRenderable_def renderableSort_def orElse_def exceeded_def
        calculateOpacityAverage_def opacityTerm_def clamp_def)

section \<open>Allocation invariant\<close>

lemma allocated_create: "allocated create"
  by (simp add: allocated_def create_def)

lemma allocated_add: "allocated s \<Longrightarrow> allocated (snd (add env s ob))"
  by (auto simp: allocated_def add_def Let_def less_Suc_eq split: option.splits)

lemma allocated_remove: "allocated s \<Longrightarrow> allocated (remove s ob)"
  using set_remove1_subset [of _ "renderables s"] set_remove1_subset [of _ "primitives s"]
    set_remove1_subset [of _ "volumes s"]
  by (auto simp: allocated_def remove_def arraySetRemove_def split: option.splits)

lemma allocated_applyRemovals: "allocated s \<Longrightarrow> allocated (applyRemovals s obs)"
  unfolding applyRemovals_def
  by (induction obs arbitrary: s) (simp_all add: allocated_remove)

lemma allocated_applyAdditions: "allocated s \<Longrightarrow> allocated (applyAdditions env s obs)"
  unfolding applyAdditions_def
  by (induction obs arbitrary: s) (simp_all add: allocated_add)

lemma allocated_processed: "allocated s \<Longrightarrow> allocated (processed env s k j)"
  using allocated_applyAdditions [OF allocated_applyRemovals, of s env]
  by (simp add: processed_def allocated_def)

lemma insertSorted_set:
  "insertSorted cmp x ys = Inr zs \<Longrightarrow> set zs = insert x (set ys)"
proof (induction ys arbitrary: zs)
  case Nil
  then show ?case by auto
next
  case (Cons y ys)
  show ?case
  proof (cases "cmp x y")
    case (Inl e)
    with Cons.prems show ?thesis by simp
  next
    case (Inr v)
    show ?thesis
    proof (cases "v \<le> 0")
      case True
      with Inr Cons.prems show ?thesis by auto
    next
      case False
      with Inr Cons.prems obtain zs' where z: "insertSorted cmp x ys = Inr zs'" "zs = y # zs'"
        by (cases "insertSorted cmp x ys") simp_all
      from Cons.IH [OF z(1)] z(2) show ?thesis by auto
    qed
  qed
qed

lemma arraySort_set: "arraySort cmp xs = Inr ys \<Longrightarrow> set ys = set xs"
proof (induction xs arbitrary: ys)
  case Nil
  then show ?case by simp
next
  case (Cons x xs)
  then obtain ys' where y: "arraySort cmp xs = Inr ys'" "insertSorted cmp x ys' = Inr ys"
    by (cases "arraySort cmp xs") simp_all
  from Cons.IH [OF y(1)] insertSorted_set [OF y(2)] show ?case by simp
qed

lemma allocated_sortAndRefresh:
  "allocated p \<Longrightarrow> sortAndRefresh p = Inr (b, s') \<Longrightarrow> allocated s'"
proof -
  assume a: "allocated p" and s: "sortAndRefresh p = Inr (b, s')"
  then obtain ordered where o: "arraySort (\<lambda>a b. renderableSort (heap p a) (heap p b)) (renderables p) = Inr ordered"
    by (cases "arraySort (\<lambda>a b. renderableSort (heap p a) (heap p b)) (renderables p)")
       (simp_all add: sortAndRefresh_def)
  with s have "s' = p\<lparr>renderables := ordered, opacityAverage := calculateOpacityAverage (p\<lparr>renderables := ordered\<rparr>)\<rparr>"
    by (simp add: sortAndRefresh_def Let_def)
  with a arraySort_set [OF o] show ?thesis by (simp add: allocated_def)
qed

lemma allocated_commit:
  assumes "allocated s" "commit env t now s = Inr (b, s')"
  shows "allocated s'"
proof (cases b)
  case False
  with assms(2) have "commit env t now s = Inr (False, s')" by simp
  from commit_incomplete [OF this] obtain k j where "s' = processed env s k j" by blast
  with assms(1) show ?thesis by (simp add: allocated_processed)
next
  case True
  with assms(2) have "sortAndRefresh (drained env s) = Inr (True, s')"
    by (simp add: commit_char drained_def split: option.splits)
  with assms(1) show ?thesis
    using allocated_sortAndRefresh [OF allocated_processed] by (simp add: drained_def) 
qed

lemma allocated_clear: "allocated (clear s)"
  by (simp add: allocated_def clear_def)

lemma allocated_syncVisibility: "allocated s \<Longrightarrow> allocated (snd (syncVisibility env s))"
  by (simp add: allocated_def syncVisibility_def Let_def)

lemma frame_updateObjects [simp]:
  "renderables (updateObjects env obs s) = renderables s"
  "volumes (updateObjects env obs s) = volumes s"
  "nextRef (updateObjects env obs s) = nextRef s"
  by (induction obs arbitrary: s) (simp_all split: option.splits)

lemma frame_updateAll [simp]:
  "renderables (updateAll env rs s) = renderables s"
  "volumes (updateAll env rs s) = volumes s"
  "nextRef (updateAll env rs s) = nextRef s"
  by (induction rs arbitrary: s) simp_all

lemma allocated_update: "allocated s \<Longrightarrow> allocated (update env objects keep s)"
  by (simp add: allocated_def update_def Let_def syncVisibility_def split: option.splits)

lemma allocated_primitives: "allocated s \<Longrightarrow> \<forall>r\<in>set (primitives s). r < nextRef s"
  by (simp add: allocated_def)

section \<open>The sort on scenes with \<^verbatim>\<open>colorBlended\<close> programs\<close>

text \<open>
  Where every live renderable has a \<^verbatim>\<open>colorBlended\<close> program the fallback
  is never read, and a complete commit leaves the live list sorted by program id,
  then material id, then id.
\<close>

lemma renderableSort_blended:
  assumes "getProgram a ColorBlended \<noteq> None" "getProgram b ColorBlended \<noteq> None"
  shows "\<exists>v. renderableSort a b = Inr v \<and> (v \<le> 0 \<longleftrightarrow> blendedKey a \<le> blendedKey b)"
  using assms
  by (auto simp: renderableSort_def orElse_def Let_def blendedKey_def)

lemma insertSorted_sorted:
  assumes cmp: "\<And>y. y \<in> set ys \<Longrightarrow> \<exists>v. cmp x y = Inr v \<and> (v \<le> 0 \<longleftrightarrow> key x \<le> (key y :: 'k :: linorder))"
    and "sorted (map key ys)" "insertSorted cmp x ys = Inr zs"
  shows "sorted (map key zs)"
  using assms
proof (induction ys arbitrary: zs)
  case Nil
  then show ?case by auto
next
  case (Cons y ys)
  from Cons.prems(1) [of y] obtain v where v: "cmp x y = Inr v" "v \<le> 0 \<longleftrightarrow> key x \<le> key y"
    by auto
  show ?case
  proof (cases "v \<le> 0")
    case True
    with v have "key x \<le> key y" by simp
    moreover from Cons.prems(2) have "\<forall>z\<in>set ys. key y \<le> key z" by simp
    ultimately have "\<forall>z\<in>set ys. key x \<le> key z" by (meson order_trans)
    with True v Cons.prems(2,3) \<open>key x \<le> key y\<close> show ?thesis by auto
  next
    case False
    with v Cons.prems(3) obtain zs' where z: "insertSorted cmp x ys = Inr zs'" "zs = y # zs'"
      by (cases "insertSorted cmp x ys") simp_all
    have "sorted (map key zs')"
      using Cons.prems(1,2) by (intro Cons.IH [OF _ _ z(1)]) simp_all
    moreover have "set zs' = insert x (set ys)" using z(1) by (rule insertSorted_set)
    moreover have "key y \<le> key x" using False v by simp
    ultimately show ?thesis using z(2) Cons.prems(2) by auto
  qed
qed

lemma arraySort_sorted:
  assumes "\<And>x y. x \<in> set xs \<Longrightarrow> y \<in> set xs \<Longrightarrow>
             \<exists>v. cmp x y = Inr v \<and> (v \<le> 0 \<longleftrightarrow> key x \<le> (key y :: 'k :: linorder))"
    and "arraySort cmp xs = Inr ys"
  shows "sorted (map key ys)"
  using assms
proof (induction xs arbitrary: ys)
  case Nil
  then show ?case by simp
next
  case (Cons x xs)
  from Cons.prems(2) obtain ys' where y: "arraySort cmp xs = Inr ys'" "insertSorted cmp x ys' = Inr ys"
    by (cases "arraySort cmp xs") simp_all
  have s: "sorted (map key ys')"
    using Cons.prems(1) by (intro Cons.IH [OF _ y(1)]) simp_all
  have "set ys' = set xs" using y(1) by (rule arraySort_set)
  then show ?case
    using Cons.prems(1) by (intro insertSorted_sorted [OF _ s y(2)]) simp_all
qed

lemma commit_sorts_blended_scene:
  assumes "commit env t now s = Inr (True, s')"
    and "\<forall>r\<in>set (renderables s'). getProgram (heap s' r) ColorBlended \<noteq> None"
  shows "sorted (map (\<lambda>r. blendedKey (heap s' r)) (renderables s'))"
proof -
  let ?p = "drained env s"
  from assms(1) have sr: "sortAndRefresh ?p = Inr (True, s')"
    by (simp add: commit_char drained_def split: option.splits)
  let ?cmp = "\<lambda>a b. renderableSort (heap ?p a) (heap ?p b)"
  from sr obtain ordered where o: "arraySort ?cmp (renderables ?p) = Inr ordered"
    by (cases "arraySort ?cmp (renderables ?p)") (simp_all add: sortAndRefresh_def)
  with sr have "s' = ?p\<lparr>renderables := ordered,
      opacityAverage := calculateOpacityAverage (?p\<lparr>renderables := ordered\<rparr>)\<rparr>"
    by (simp add: sortAndRefresh_def Let_def)
  then have s': "renderables s' = ordered" "heap s' = heap ?p"
    by simp_all
  have set: "set ordered = set (renderables ?p)" using o by (rule arraySort_set)
  have "sorted (map (\<lambda>r. blendedKey (heap ?p r)) ordered)"
  proof (rule arraySort_sorted [OF _ o])
    fix x y assume "x \<in> set (renderables ?p)" "y \<in> set (renderables ?p)"
    then show "\<exists>v. ?cmp x y = Inr v \<and> (v \<le> 0 \<longleftrightarrow> blendedKey (heap ?p x) \<le> blendedKey (heap ?p y))"
      using assms(2) set s' by (intro renderableSort_blended) auto
  qed
  then show ?thesis by (simp add: s')
qed

section \<open>Time slicing\<close>

lemma commit_incomplete_clock:
  assumes c: "commit env maxTimeMs now s = Inr (False, s1)"
  shows "\<exists>m. 0 < m \<and> maxTimeMs < now m - now 0"
proof -
  from commit_incomplete_exceeded [OF c] obtain k j where
    kj: "0 < k + j" "exceeded maxTimeMs now (k + j)" by (elim exE conjE)
  from exceeded_batch [OF kj(2) kj(1)]
  have "commitBulkSize div commitBulkSize \<le> (k + j) div commitBulkSize"
    by (rule div_le_mono)
  then have "0 < (k + j) div commitBulkSize"
    by (simp add: commitBulkSize_def)
  moreover from kj(2) have "maxTimeMs < now ((k + j) div commitBulkSize) - now 0"
    unfolding exceeded_def by (rule conjunct2)
  ultimately show ?thesis by (intro exI [of _ "(k + j) div commitBulkSize"] conjI)
qed

lemma commit_first_batch_only_if:
  assumes big: "commitBulkSize < pending (commitQueue s)"
    and c: "commit env maxTimeMs now s = Inr (False, s1)"
    and p: "pending (commitQueue s1) = pending (commitQueue s) - commitBulkSize"
  shows "maxTimeMs < now 1 - now 0"
proof -
  from commit_incomplete_exceeded [OF c] obtain k j where kj:
    "s1 = processed env s k j" "k \<le> length (removeList (commitQueue s))"
    "j \<le> length (addList (commitQueue s))"
    "exceeded maxTimeMs now (k + j)" by blast
  have "pending (commitQueue s1) = pending (commitQueue s) - (k + j)"
    unfolding kj(1) using kj(2,3) by (rule pending_processed)
  moreover have "k + j \<le> pending (commitQueue s)" using kj(2,3) by (simp add: pending_def)
  ultimately have "k + j = commitBulkSize" using p big by linarith
  with kj(4) show ?thesis by (simp add: exceeded_def commitBulkSize_def)
qed

lemma commit_first_batch_incomplete:
  assumes big: "commitBulkSize < pending (commitQueue s)" and clk: "maxTimeMs < now 1 - now 0"
  shows "\<exists>s1. commit env maxTimeMs now s = Inr (False, s1)
            \<and> pending (commitQueue s1) = pending (commitQueue s) - commitBulkSize
            \<and> 0 < pending (commitQueue s1)"
proof (cases "commitBulkSize \<le> length (removeList (commitQueue s))")
  let ?R = "removeList (commitQueue s)" and ?A = "addList (commitQueue s)"
  case True
  have "stopAt maxTimeMs now 0 (length ?R) = Some (commitBulkSize - 0)"
    using True clk by (intro stopAt_first_batch) (simp_all add: commitBulkSize_def)
  then have "commit env maxTimeMs now s = Inr (False, processed env s commitBulkSize 0)"
    by (simp add: commit_char)
  moreover have "pending (commitQueue (processed env s commitBulkSize 0))
      = pending (commitQueue s) - (commitBulkSize + 0)"
    using True by (intro pending_processed) simp_all
  ultimately show ?thesis using big by auto
next
  let ?R = "removeList (commitQueue s)" and ?A = "addList (commitQueue s)"
  case False
  then have small: "0 + length ?R < commitBulkSize" by simp
  from big have all: "commitBulkSize < length ?R + length ?A" by (simp add: pending_def)
  have r: "stopAt maxTimeMs now 0 (length ?R) = None"
    using small by (rule stopAt_below_batch)
  have a: "stopAt maxTimeMs now (length ?R) (length ?A) = Some (commitBulkSize - length ?R)"
    using small all clk by (intro stopAt_first_batch) simp_all
  have "commit env maxTimeMs now s
      = Inr (False, processed env s (length ?R) (commitBulkSize - length ?R))"
    using r a by (simp add: commit_char)
  moreover have "pending (commitQueue (processed env s (length ?R) (commitBulkSize - length ?R)))
      = pending (commitQueue s) - (length ?R + (commitBulkSize - length ?R))"
    using small all by (intro pending_processed) simp_all
  ultimately show ?thesis using big small by auto
qed

lemma commitRepeatedly_sortable:
  assumes "sortable (drained env s)"
  shows "\<exists>n s'. n \<le> pending (commitQueue s) div commitBulkSize
               \<and> commitRepeatedly env calls n s = Inr (True, s')
               \<and> isEmpty (commitQueue s')
               \<and> dom (renderableMap s') = liveAfterDrain s
               \<and> sortAndRefresh (drained env s) = Inr (True, s')"
proof -
  from commitRepeatedly_reaches [of s env calls]
  obtain n where n: "n \<le> pending (commitQueue s) div commitBulkSize"
    "commitRepeatedly env calls n s = sortAndRefresh (drained env s)" by (elim exE conjE)
  from sortAndRefresh_sortable [OF assms]
  obtain final where f: "sortAndRefresh (drained env s) = Inr (True, final)" by (elim exE)
  from sortAndRefresh_Inr [OF f]
  have "commitQueue final = commitQueue (drained env s)"
    "renderableMap final = renderableMap (drained env s)" by simp_all
  then have "isEmpty (commitQueue final)" "dom (renderableMap final) = liveAfterDrain s"
    by (simp_all add: isEmpty_def drained_def dom_drained [unfolded drained_def])
  with n f show ?thesis
    by (intro exI [of _ n] exI [of _ final]) simp
qed

section \<open>The cleared scene\<close>

text \<open>
  What \<^verbatim>\<open>clear()\<close> does reset: the count is 0; each bounding sphere, when
  read, is recomputed over no renderable, which is the empty sphere for a helper that
  returns the empty sphere when nothing was included, and the read clears the dirty
  flag; both averages evaluate to 0 on the cleared scene, so they are 0 after the next
  \<^verbatim>\<open>update()\<close>.
\<close>

lemma clear_resets_collections_and_spheres:
  assumes "getSphere (boundaryHelper env)
             (finishedIncludeStep (boundaryHelper env) (reset (boundaryHelper env))) = Sphere3D_zero"
  shows "get_count (clear s) = 0
     \<and> get_boundingSphere env (clear s) = (Sphere3D_zero, (clear s)\<lparr>boundingSphere := Sphere3D_zero, boundingSphereDirty := False\<rparr>)
     \<and> fst (get_boundingSphereVisible env (clear s)) = Sphere3D_zero
     \<and> \<not> boundingSphereVisibleDirty (snd (get_boundingSphereVisible env (clear s)))
     \<and> calculateMarkerAverage (clear s) = 0
     \<and> calculateOpacityAverage (clear s) = 0
     \<and> get_markerAverage (update env objects keepBoundingSphere (clear s)) = 0
     \<and> get_opacityAverage (update env objects keepBoundingSphere (clear s)) = 0"
proof -
  have p: "primitives (clear s) = []" "renderables (clear s) = []"
    "boundingSphereDirty (clear s)" "boundingSphereVisibleDirty (clear s)"
    by (simp_all add: clear_def)
  have u: "primitives (update env objects keepBoundingSphere (clear s)) = []"
    using p by simp
  show ?thesis
    using assms averages_of_no_primitives [OF p(1)] averages_of_no_primitives [OF u]
    by (simp add: get_count_def get_boundingSphere_def get_boundingSphereVisible_def Let_def p
          calculateBoundingSphere_Nil get_markerAverage_def get_opacityAverage_def update_averages)
qed

lemma clear_resets_example:
  "getSphere centroidHelper (finishedIncludeStep centroidHelper (reset centroidHelper)) = Sphere3D_zero
   \<and> get_count (clear markedScene) = 0
   \<and> fst (get_boundingSphere wboitEnv (clear markedScene)) = Sphere3D_zero
   \<and> fst (get_boundingSphereVisible wboitEnv (clear markedScene)) = Sphere3D_zero
   \<and> get_opacityAverage (update wboitEnv None True (clear markedScene)) = 0"
proof -
  have h: "getSphere (boundaryHelper wboitEnv)
      (finishedIncludeStep (boundaryHelper wboitEnv) (reset (boundaryHelper wboitEnv))) = Sphere3D_zero"
    by (simp add: wboitEnv_def centroidHelper_def Sphere3D_zero_def)
  from clear_resets_collections_and_spheres [OF h, of markedScene None True] h
  show ?thesis by (simp add: wboitEnv_def)
qed

lemma markedScene_registry:
  "renderableMap markedScene = [1 \<mapsto> 0]" "renderables markedScene = [0]"
  "primitives markedScene = [0]" "volumes markedScene = []"
  "commitQueue markedScene = \<lparr>removeList = [], addList = []\<rparr>"
  by (simp_all add: markedScene_def update_def Let_def oneLive_def add_def create_def mesh_def)

lemma removalPending_commit:
  "\<exists>s'. commit wboitEnv 0 (\<lambda>n. 0) removalPending = Inr (True, s')
     \<and> renderables s' = [] \<and> opacityAverage s' = 0 \<and> markerAverage s' = 1"
  by (simp add: commit_char removalPending_def markedScene_registry markedScene_averages
        sortAndRefresh_def processed_def applyRemovals_def applyAdditions_def remove_def
        arraySetRemove_def mesh_def exceeded_def calculateOpacityAverage_def Let_def)

section \<open>Properties\<close>

text \<open>
  C2: within one invocation of \<^verbatim>\<open>commit\<close> the removals come first. Whatever
  the invocation returns, the scene it leaves is the one in which the first \<open>k\<close>
  queued removals and then the first \<open>j\<close> queued additions went through the registry,
  for some \<open>k\<close> and \<open>j\<close>; an addition has been applied (\<open>0 < j\<close>) only if no
  removal is left; and the queue holds exactly the operations not yet processed, in
  their order. A complete commit has processed everything and then sorted.
\<close>

theorem commit_removals_before_additions:
  assumes "commit env t now s = Inr (b, s')"
  shows "\<exists>k j. k \<le> length (removeList (commitQueue s)) \<and> j \<le> length (addList (commitQueue s))
     \<and> (0 < j \<longrightarrow> k = length (removeList (commitQueue s)))
     \<and> commitQueue s' = \<lparr>removeList = drop k (removeList (commitQueue s)),
                          addList = drop j (addList (commitQueue s))\<rparr>
     \<and> (if b then k = length (removeList (commitQueue s)) \<and> j = length (addList (commitQueue s))
               \<and> sortAndRefresh (processed env s k j) = Inr (True, s')
         else s' = processed env s k j)"
proof -
  let ?R = "removeList (commitQueue s)" and ?A = "addList (commitQueue s)"
  show ?thesis
  proof (cases "stopAt t now 0 (length ?R)")
    case (Some k)
    with assms have "b = False" "s' = processed env s k 0"
      by (simp_all add: commit_char)
    moreover from stopAt_Some [OF Some] have "k \<le> length ?R" by simp
    ultimately show ?thesis
      by (intro exI [of _ k] exI [of _ 0]) simp
  next
    case None
    note rNone = None
    show ?thesis
    proof (cases "stopAt t now (length ?R) (length ?A)")
      case (Some j)
      with assms rNone have "b = False" "s' = processed env s (length ?R) j"
        by (simp_all add: commit_char)
      moreover from stopAt_Some [OF Some] have "j \<le> length ?A" by simp
      ultimately show ?thesis
        by (intro exI [of _ "length ?R"] exI [of _ j]) simp
    next
      case None
      with assms rNone have sr: "sortAndRefresh (processed env s (length ?R) (length ?A)) = Inr (b, s')"
        by (simp add: commit_char)
      from sortAndRefresh_Inr [OF sr] sr show ?thesis
        by (intro exI [of _ "length ?R"] exI [of _ "length ?A"]) simp
    qed
  qed
qed

theorem commit_removals_before_additions_witness:
  "(\<exists>s'. commit wboitEnv 0 (\<lambda>n. 0) swapPending = Inr (True, s')
      \<and> commitQueue s' = \<lparr>removeList = [], addList = []\<rparr>
      \<and> sortAndRefresh (processed wboitEnv swapPending 1 2) = Inr (True, s'))
   \<and> (\<exists>s'. commit wboitEnv 0 ticking bulkPending = Inr (False, s')
      \<and> addList (commitQueue s') = [mesh 2, mesh 3]
      \<and> length (removeList (commitQueue s')) < length unregistered)"
proof -
  from swapPending_commit obtain s' where c: "commit wboitEnv 0 (\<lambda>n. 0) swapPending = Inr (True, s')"
    by blast
  have q: "commitQueue swapPending = \<lparr>removeList = [mesh 1], addList = [mesh 2, mesh 3]\<rparr>"
    by (simp add: swapPending_def)
  from commit_removals_before_additions [OF c] c
  have first: "\<exists>s'. commit wboitEnv 0 (\<lambda>n. 0) swapPending = Inr (True, s')
      \<and> commitQueue s' = \<lparr>removeList = [], addList = []\<rparr>
      \<and> sortAndRefresh (processed wboitEnv swapPending 1 2) = Inr (True, s')"
    by (auto simp: q numeral_2_eq_2)
  from commit_removals_before_additions [OF bulkPending_first_call]
  obtain k j where kj: "0 < j \<longrightarrow> k = length (removeList (commitQueue bulkPending))"
    "processed wboitEnv bulkPending 100 0 = processed wboitEnv bulkPending k j"
    "commitQueue (processed wboitEnv bulkPending 100 0)
       = \<lparr>removeList = drop k (removeList (commitQueue bulkPending)),
          addList = drop j (addList (commitQueue bulkPending))\<rparr>"
    by auto
  have "addList (commitQueue (processed wboitEnv bulkPending 100 0)) = [mesh 2, mesh 3]"
    "length (removeList (commitQueue (processed wboitEnv bulkPending 100 0))) < length unregistered"
    by (simp_all add: bulkPending_queue length_unregistered)
  with bulkPending_first_call kj have second: "\<exists>s'. commit wboitEnv 0 ticking bulkPending = Inr (False, s')
      \<and> addList (commitQueue s') = [mesh 2, mesh 3]
      \<and> length (removeList (commitQueue s')) < length unregistered"
    by blast
  from first second show ?thesis by (rule conjI)
qed

text \<open>
  C8: the registry's \<^verbatim>\<open>add\<close> of an object that is already registered returns
  the instance registered for it and prints the warning; nothing else changes: the
  live list, both partitions, the map, the commit queue and both dirty flags are the
  ones from before the call.
\<close>

theorem add_duplicate_warns_and_keeps_state:
  assumes "renderableMap s (oref ob) = Some r"
  shows "add env s ob = (r, s\<lparr>console := console s @ [AlreadyPresent (object_id ob)]\<rparr>)
     \<and> renderables (snd (add env s ob)) = renderables s
     \<and> primitives (snd (add env s ob)) = primitives s
     \<and> volumes (snd (add env s ob)) = volumes s
     \<and> renderableMap (snd (add env s ob)) = renderableMap s
     \<and> commitQueue (snd (add env s ob)) = commitQueue s
     \<and> boundingSphereDirty (snd (add env s ob)) = boundingSphereDirty s
     \<and> boundingSphereVisibleDirty (snd (add env s ob)) = boundingSphereVisibleDirty s"
  using assms by (simp add: add_def)

theorem add_duplicate_witness:
  "renderableMap oneLive (oref (mesh 1)) = Some 0
   \<and> add wboitEnv oneLive (mesh 1) = (0, oneLive\<lparr>console := [AlreadyPresent 1]\<rparr>)
   \<and> renderables (snd (add wboitEnv oneLive (mesh 1))) = [0]"
proof -
  have r: "renderableMap oneLive (oref (mesh 1)) = Some 0"
    by (simp add: oneLive_def add_def create_def mesh_def Let_def)
  have c: "console oneLive = []" "object_id (mesh 1) = 1" "renderables oneLive = [0]"
    by (simp_all add: oneLive_def add_def create_def mesh_def Let_def)
  show ?thesis
    using add_duplicate_warns_and_keeps_state [OF r, of wboitEnv] r c by simp
qed

text \<open>
  C10: a commit that returns \<^verbatim>\<open>false\<close> has done nothing but registry
  operations. The scene it leaves is exactly \<open>processed env s k j\<close> for some \<open>k\<close>
  and \<open>j\<close>: both averages are the ones from before the call, and the live list is
  the old list with the removed entries deleted, in the old order, followed by the
  entries added; it has not been sorted.
\<close>

theorem commit_incomplete_keeps_order_and_averages:
  assumes "commit env t now s = Inr (False, s')"
  shows "\<exists>k j. s' = processed env s k j
     \<and> opacityAverage s' = opacityAverage s \<and> markerAverage s' = markerAverage s
     \<and> (\<exists>kept new. renderables s' = kept @ new \<and> subseq kept (renderables s))"
proof -
  from commit_incomplete [OF assms]
  obtain k j where "s' = processed env s k j" by auto
  then show ?thesis using renderables_processed [of env s k j]
    by (auto simp: processed_def)
qed

theorem commit_incomplete_witness:
  "\<exists>s'. commit wboitEnv 0 ticking bulkPending = Inr (False, s')
     \<and> opacityAverage s' = opacityAverage bulkPending
     \<and> markerAverage s' = markerAverage bulkPending
     \<and> (\<exists>k j. s' = processed wboitEnv bulkPending k j)"
  using commit_incomplete_keeps_order_and_averages [OF bulkPending_first_call] bulkPending_first_call
  by auto

text \<open>
  C1, as amended. The budget is a time, and the test is strict. For every scene with
  more than one batch pending, \<^verbatim>\<open>commit\<close> returns \<^verbatim>\<open>false\<close> after
  exactly one batch, leaving all but one batch (so at least one entry) pending, if and
  only if the clock reading taken at that batch boundary exceeds the start reading by
  more than the budget; and whenever \<^verbatim>\<open>commit\<close> returns \<^verbatim>\<open>false\<close>,
  some reading of the clock exceeded the start reading by more than the budget, so
  \<^verbatim>\<open>commit(0)\<close> returns \<^verbatim>\<open>false\<close> only if the clock has advanced.
  Whatever the budgets and clocks of the calls, calling \<^verbatim>\<open>commit\<close> again
  while it returns \<^verbatim>\<open>false\<close> reaches, after at most one call per full
  batch of pending work and one more, the call that drains the queue and sorts the
  drained scene. Where no comparison of that sort throws, this call returns
  \<^verbatim>\<open>true\<close> with both pending lists empty, and the scene, hence the set of
  live identities, is the same however the work was sliced.
\<close>

theorem commit_time_sliced:
  "(commitBulkSize < pending (commitQueue s) \<longrightarrow>
      (maxTimeMs < now 1 - now 0 \<longleftrightarrow>
         (\<exists>s1. commit env maxTimeMs now s = Inr (False, s1)
            \<and> pending (commitQueue s1) = pending (commitQueue s) - commitBulkSize
            \<and> 0 < pending (commitQueue s1))))
   \<and> (\<forall>s1. commit env maxTimeMs now s = Inr (False, s1) \<longrightarrow>
          (\<exists>m. 0 < m \<and> maxTimeMs < now m - now 0))
   \<and> (\<exists>n. n \<le> pending (commitQueue s) div commitBulkSize
          \<and> commitRepeatedly env calls n s = sortAndRefresh (drained env s))
   \<and> (sortable (drained env s) \<longrightarrow>
        (\<exists>n s'. n \<le> pending (commitQueue s) div commitBulkSize
               \<and> commitRepeatedly env calls n s = Inr (True, s')
               \<and> isEmpty (commitQueue s')
               \<and> dom (renderableMap s') = liveAfterDrain s
               \<and> sortAndRefresh (drained env s) = Inr (True, s')))"
proof (intro conjI impI allI iffI)
  assume "commitBulkSize < pending (commitQueue s)" "maxTimeMs < now 1 - now 0"
  then show "\<exists>s1. commit env maxTimeMs now s = Inr (False, s1)
            \<and> pending (commitQueue s1) = pending (commitQueue s) - commitBulkSize
            \<and> 0 < pending (commitQueue s1)"
    by (rule commit_first_batch_incomplete)
next
  assume big: "commitBulkSize < pending (commitQueue s)"
    and "\<exists>s1. commit env maxTimeMs now s = Inr (False, s1)
            \<and> pending (commitQueue s1) = pending (commitQueue s) - commitBulkSize
            \<and> 0 < pending (commitQueue s1)"
  then obtain s1 where "commit env maxTimeMs now s = Inr (False, s1)"
    "pending (commitQueue s1) = pending (commitQueue s) - commitBulkSize"
    by (elim exE conjE)
  with big show "maxTimeMs < now 1 - now 0" by (rule commit_first_batch_only_if)
next
  fix s1 assume "commit env maxTimeMs now s = Inr (False, s1)"
  then show "\<exists>m. 0 < m \<and> maxTimeMs < now m - now 0" by (rule commit_incomplete_clock)
next
  from commitRepeatedly_reaches [of s env calls]
  show "\<exists>n. n \<le> pending (commitQueue s) div commitBulkSize
          \<and> commitRepeatedly env calls n s = sortAndRefresh (drained env s)"
    by (simp add: Bex_def)
next
  assume "sortable (drained env s)"
  then show "\<exists>n s'. n \<le> pending (commitQueue s) div commitBulkSize
               \<and> commitRepeatedly env calls n s = Inr (True, s')
               \<and> isEmpty (commitQueue s')
               \<and> dom (renderableMap s') = liveAfterDrain s
               \<and> sortAndRefresh (drained env s) = Inr (True, s')"
    by (rule commitRepeatedly_sortable)
qed

theorem commit_time_sliced_witness:
  "sortable (drained wboitEnv bulkPending)
   \<and> commitBulkSize < pending (commitQueue bulkPending) \<and> (0::real) < ticking 1 - ticking 0
   \<and> (\<exists>s1. commit wboitEnv 0 ticking bulkPending = Inr (False, s1)
          \<and> pending (commitQueue s1) = 22)
   \<and> (\<exists>m. 0 < m \<and> (0::real) < ticking m - ticking 0)
   \<and> (\<exists>n s'. n \<le> 1 \<and> commitRepeatedly wboitEnv (\<lambda>m. (0, ticking)) n bulkPending = Inr (True, s')
          \<and> isEmpty (commitQueue s') \<and> dom (renderableMap s') = {1, 2, 3})"
proof -
  have h: "commitBulkSize < pending (commitQueue bulkPending)" "(0::real) < ticking 1 - ticking 0"
    by (simp_all add: bulkPending_queue commitBulkSize_def ticking_def)
  have d: "pending (commitQueue bulkPending) div commitBulkSize = 1"
    "pending (commitQueue bulkPending) - commitBulkSize = 22"
    by (simp_all add: bulkPending_queue commitBulkSize_def)
  note t = commit_time_sliced [of bulkPending 0 ticking wboitEnv "\<lambda>m. (0, ticking)",
      unfolded d bulkPending_live]
  from t have t1: "commitBulkSize < pending (commitQueue bulkPending) \<longrightarrow>
      ((0::real) < ticking 1 - ticking 0 \<longleftrightarrow>
         (\<exists>s1. commit wboitEnv 0 ticking bulkPending = Inr (False, s1)
            \<and> pending (commitQueue s1) = 22 \<and> 0 < pending (commitQueue s1)))"
    by (rule conjunct1)
  from t have t2: "\<forall>s1. commit wboitEnv 0 ticking bulkPending = Inr (False, s1) \<longrightarrow>
          (\<exists>m. 0 < m \<and> (0::real) < ticking m - ticking 0)"
    by (rule conjunct2 [THEN conjunct1])
  from t have t4: "sortable (drained wboitEnv bulkPending) \<longrightarrow>
        (\<exists>n s'. n \<le> 1
               \<and> commitRepeatedly wboitEnv (\<lambda>m. (0, ticking)) n bulkPending = Inr (True, s')
               \<and> isEmpty (commitQueue s')
               \<and> dom (renderableMap s') = {1, 2, 3}
               \<and> sortAndRefresh (drained wboitEnv bulkPending) = Inr (True, s'))"
    by (rule conjunct2 [THEN conjunct2, THEN conjunct2])
  from t1 h obtain s1 where "commit wboitEnv 0 ticking bulkPending = Inr (False, s1)"
    "pending (commitQueue s1) = 22" by auto
  then have first: "\<exists>s1. commit wboitEnv 0 ticking bulkPending = Inr (False, s1)
          \<and> pending (commitQueue s1) = 22" by (intro exI [of _ s1]) simp
  from t2 [rule_format, OF bulkPending_first_call]
  have adv: "\<exists>m. 0 < m \<and> (0::real) < ticking m - ticking 0" .
  from t4 [rule_format, OF bulkPending_sortable] obtain n s' where
    "n \<le> 1" "commitRepeatedly wboitEnv (\<lambda>m. (0, ticking)) n bulkPending = Inr (True, s')"
    "isEmpty (commitQueue s')" "dom (renderableMap s') = {1, 2, 3}" by auto
  then have rep: "\<exists>n s'. n \<le> 1
      \<and> commitRepeatedly wboitEnv (\<lambda>m. (0, ticking)) n bulkPending = Inr (True, s')
      \<and> isEmpty (commitQueue s') \<and> dom (renderableMap s') = {1, 2, 3}"
    by (intro exI [of _ n] exI [of _ s']) simp
  from bulkPending_sortable h first adv rep show ?thesis by (intro conjI)
qed

text \<open>
  The claim C1 as stated fails: with 122 operations pending and a budget of 0, a
  commit whose clock reads the same at the batch boundary as at the start returns
  \<^verbatim>\<open>true\<close> and leaves nothing pending.
\<close>

theorem commit_zero_budget_counterexample:
  "commitBulkSize < pending (commitQueue bulkPending)
   \<and> (\<exists>s'. commit wboitEnv 0 (\<lambda>n. 7) bulkPending = Inr (True, s') \<and> isEmpty (commitQueue s'))"
proof -
  have ne: "\<And>i. \<not> exceeded 0 (\<lambda>n. 7) i" by (simp add: exceeded_def)
  from sortAndRefresh_sortable [OF bulkPending_sortable]
  obtain final where f: "sortAndRefresh (drained wboitEnv bulkPending) = Inr (True, final)" by blast
  have "commit wboitEnv 0 (\<lambda>n. 7) bulkPending = Inr (True, final)"
    using f by (simp add: commit_char stopAt_never [OF ne] drained_def)
  moreover from sortAndRefresh_Inr [OF f] have "isEmpty (commitQueue final)"
    by (simp add: isEmpty_def drained_def)
  ultimately show ?thesis
    by (auto simp: bulkPending_queue commitBulkSize_def)
qed

text \<open>
  C7: the value \<^verbatim>\<open>calculateOpacityAverage\<close> returns is the mean, over the
  visible renderables of the primitive partition, of
  \<open>(1 - transparencyAverage) * clamp (alpha * alphaFactor) 0 1 * xray\<close>, where \<open>xray\<close>
  is one half when the x-ray flag is set and 1 otherwise, and it is 0 when no primitive
  is visible; the marker average is the mean of the marker values over the same
  renderables. A volumetric object never enters them: registering one leaves the
  visible primitives, and with them both averages, as they were (the scene's
  collections hold allocated addresses only, which is what the first hypothesis says
  of the primitives).
\<close>

theorem opacity_average_is_mean_over_visible_primitives:
  "calculateOpacityAverage s =
     (if visiblePrimitives s = [] then 0
      else (\<Sum>p\<leftarrow>visiblePrimitives s.
              (1 - v_transparencyAverage p) * clamp (v_alpha p * st_alphaFactor p) 0 1
                * (if v_dXrayShaded p = Some True then 0.5 else 1))
           / real (length (visiblePrimitives s)))
   \<and> calculateMarkerAverage s =
     (if visiblePrimitives s = [] then 0
      else (\<Sum>p\<leftarrow>visiblePrimitives s. v_markerAverage p) / real (length (visiblePrimitives s)))
   \<and> ((\<forall>r\<in>set (primitives s). r < nextRef s) \<and> otype ob = ''direct-volume'' \<longrightarrow>
        visiblePrimitives (snd (add env s ob)) = visiblePrimitives s
        \<and> calculateOpacityAverage (snd (add env s ob)) = calculateOpacityAverage s
        \<and> calculateMarkerAverage (snd (add env s ob)) = calculateMarkerAverage s)"
proof -
  have "map opacityTerm (visiblePrimitives s) =
      map (\<lambda>p. (1 - v_transparencyAverage p) * clamp (v_alpha p * st_alphaFactor p) 0 1
                * (if v_dXrayShaded p = Some True then 0.5 else 1)) (visiblePrimitives s)"
    by (simp add: opacityTerm_formula)
  then have a: "calculateOpacityAverage s =
     (if visiblePrimitives s = [] then 0
      else (\<Sum>p\<leftarrow>visiblePrimitives s.
              (1 - v_transparencyAverage p) * clamp (v_alpha p * st_alphaFactor p) 0 1
                * (if v_dXrayShaded p = Some True then 0.5 else 1))
           / real (length (visiblePrimitives s)))"
    by (simp only: calculateOpacityAverage_mean)
  have c: "(\<forall>r\<in>set (primitives s). r < nextRef s) \<and> otype ob = ''direct-volume'' \<longrightarrow>
        visiblePrimitives (snd (add env s ob)) = visiblePrimitives s
        \<and> calculateOpacityAverage (snd (add env s ob)) = calculateOpacityAverage s
        \<and> calculateMarkerAverage (snd (add env s ob)) = calculateMarkerAverage s"
  proof
    assume "(\<forall>r\<in>set (primitives s). r < nextRef s) \<and> otype ob = ''direct-volume''"
    then have "visiblePrimitives (snd (add env s ob)) = visiblePrimitives s"
      by (simp add: visiblePrimitives_add_volume)
    then show "visiblePrimitives (snd (add env s ob)) = visiblePrimitives s
        \<and> calculateOpacityAverage (snd (add env s ob)) = calculateOpacityAverage s
        \<and> calculateMarkerAverage (snd (add env s ob)) = calculateMarkerAverage s"
      by (simp add: calculateOpacityAverage_mean calculateMarkerAverage_mean)
  qed
  from a calculateMarkerAverage_mean [of s] c show ?thesis by (intro conjI)
qed

theorem opacity_average_witness:
  "primitives hiddenSecond = [0, 1] \<and> nextRef hiddenSecond = 2
   \<and> otype (volume 9) = ''direct-volume''
   \<and> calculateOpacityAverage hiddenSecond = 1
   \<and> calculateOpacityAverage (snd (add wboitEnv hiddenSecond (volume 9))) = 1
   \<and> calculateMarkerAverage (snd (add wboitEnv hiddenSecond (volume 9))) = 1"
proof -
  have h: "(\<forall>r\<in>set (primitives hiddenSecond). r < nextRef hiddenSecond)
      \<and> otype (volume 9) = ''direct-volume''"
    by (simp add: hiddenSecond_fields volume_def)
  have v: "calculateOpacityAverage hiddenSecond = 1" "calculateMarkerAverage hiddenSecond = 1"
    by (simp_all add: calculateOpacityAverage_mean calculateMarkerAverage_mean hiddenSecond_fields
          opacityTerm_def clamp_def wboitRenderable_def)
  from opacity_average_is_mean_over_visible_primitives [of hiddenSecond "volume 9" wboitEnv] h v
  show ?thesis by (simp add: hiddenSecond_fields)
qed

text \<open>
  C9: reading \<^verbatim>\<open>boundingSphereVisible\<close> while its dirty flag is set stores the
  sphere computed over the visible renderables, clears the flag and stores the
  current visibility fingerprint; nothing else changes, and a
  \<^verbatim>\<open>syncVisibility()\<close> that follows at once reports no change and leaves the
  scene as it is.
\<close>

theorem boundingSphereVisible_read_refreshes_fingerprint:
  assumes "boundingSphereVisibleDirty s"
  shows "(case get_boundingSphereVisible env s of
            (sphere, s') \<Rightarrow>
              sphere = calculateBoundingSphere (boundaryHelper env)
                         (filter st_visible (map (heap s) (renderables s))) False
              \<and> s' = s\<lparr>boundingSphereVisible := sphere, boundingSphereVisibleDirty := False,
                        visibleHash := computeVisibleHash env s\<rparr>
              \<and> \<not> boundingSphereVisibleDirty s'
              \<and> visibleHash s' = computeVisibleHash env s
              \<and> syncVisibility env s' = (False, s'))"
  using assms
  by (simp add: get_boundingSphereVisible_def Let_def calculateBoundingSphere_visible
        syncVisibility_def computeVisibleHash_def)

theorem boundingSphereVisible_read_witness:
  "boundingSphereVisibleDirty oneLive
   \<and> fst (get_boundingSphereVisible wboitEnv oneLive) = \<lparr>center = (0, 0, 0), radius = 1\<rparr>
   \<and> visibleHash (snd (get_boundingSphereVisible wboitEnv oneLive)) = 23562
   \<and> fst (syncVisibility wboitEnv (snd (get_boundingSphereVisible wboitEnv oneLive))) = False"
proof -
  have s: "calculateBoundingSphere (boundaryHelper wboitEnv)
      (filter st_visible (map (heap oneLive) (renderables oneLive))) False
      = \<lparr>center = (0, 0, 0), radius = 1\<rparr>"
    by (simp add: oneLive_fields wboitRenderable_def calculateBoundingSphere_def wboitEnv_def
          centroidHelper_def distance_def)
  have h: "computeVisibleHash wboitEnv oneLive = 23562"
    by (simp add: computeVisibleHash_def oneLive_fields wboitRenderable_def wboitEnv_def
          toInt32_def mesh_def)
  from boundingSphereVisible_read_refreshes_fingerprint [OF oneLive_fields(1), of wboitEnv]
  show ?thesis
    by (auto simp: oneLive_fields(1) s h split: prod.splits)
qed

text \<open>
  C6: \<^verbatim>\<open>clear()\<close> empties the collections and marks both sphere caches
  dirty, but it does not touch the two cached averages. On the scene with one marked,
  opaque, visible mesh, after an \<^verbatim>\<open>update()\<close> both getters return 1; after
  \<^verbatim>\<open>clear()\<close> the count is 0 and both getters still return 1, although
  both averages evaluate to 0 on the cleared scene. Removing the same mesh through the
  queue and a commit leaves the same empty scene with the opacity average 0.
\<close>

theorem clear_leaves_averages_stale:
  "get_markerAverage markedScene = 1 \<and> get_opacityAverage markedScene = 1
   \<and> get_count (clear markedScene) = 0
   \<and> get_markerAverage (clear markedScene) = 1 \<and> get_opacityAverage (clear markedScene) = 1
   \<and> calculateMarkerAverage (clear markedScene) = 0
   \<and> calculateOpacityAverage (clear markedScene) = 0
   \<and> (\<exists>s'. commit wboitEnv 0 (\<lambda>n. 0) removalPending = Inr (True, s')
          \<and> get_count s' = 0 \<and> get_opacityAverage s' = 0)"
proof -
  have p: "primitives (clear markedScene) = []" by (simp add: clear_def)
  from removalPending_commit obtain s' where
    "commit wboitEnv 0 (\<lambda>n. 0) removalPending = Inr (True, s')"
    "renderables s' = []" "opacityAverage s' = 0" by (elim exE conjE)
  then have "\<exists>s'. commit wboitEnv 0 (\<lambda>n. 0) removalPending = Inr (True, s')
          \<and> get_count s' = 0 \<and> get_opacityAverage s' = 0"
    by (intro exI [of _ s']) (simp add: get_count_def get_opacityAverage_def)
  with averages_of_no_primitives [OF p] show ?thesis
    by (simp add: get_count_def get_markerAverage_def get_opacityAverage_def clear_def
          markedScene_averages)
qed

text \<open>
  C3: \<^verbatim>\<open>syncVisibility\<close> never assigns the cached fingerprint, so a second
  call returns what the first returned. On a freshly created scene, whose cached
  fingerprint is the sentinel -1 that no computed fingerprint equals, both calls
  report a change although no visibility changed in between.
\<close>

theorem syncVisibility_reports_change_again:
  "fst (syncVisibility env create)
   \<and> fst (syncVisibility env (snd (syncVisibility env create)))
   \<and> fst (syncVisibility env (snd (syncVisibility env s))) = fst (syncVisibility env s)
   \<and> visibleHash (snd (syncVisibility env s)) = visibleHash s"
proof -
  have same: "computeVisibleHash env (snd (syncVisibility env s)) = computeVisibleHash env s" for s
    by (rule computeVisibleHash_cong) (simp_all add: syncVisibility_def Let_def)
  have vh: "visibleHash (snd (syncVisibility env s)) = visibleHash s" for s
    by (simp add: syncVisibility_def Let_def)
  have again: "fst (syncVisibility env (snd (syncVisibility env s))) = fst (syncVisibility env s)" for s
    using same [of s] vh [of s] by (simp add: syncVisibility_def Let_def)
  have first: "fst (syncVisibility env create)"
    using computeVisibleHash_not_sentinel [of env create]
    by (simp add: syncVisibility_def Let_def create_def)
  show ?thesis using first again vh by simp
qed

text \<open>
  C4: on a fresh scene with two marked, visible meshes pending, a complete
  \<^verbatim>\<open>commit\<close> recomputes the opacity average but leaves the marker average at
  its old value 0, although the mean over the visible primitives is 1; a
  \<^verbatim>\<open>syncVisibility()\<close> that reports a change leaves it at 0 as well. Only
  \<^verbatim>\<open>update()\<close> recomputes it.
\<close>

theorem commit_and_sync_leave_marker_average_stale:
  "\<exists>s'. commit wboitEnv 0 (\<lambda>n. 0) twoPending = Inr (True, s')
     \<and> get_markerAverage s' = 0 \<and> calculateMarkerAverage s' = 1
     \<and> get_opacityAverage s' = calculateOpacityAverage s'
     \<and> fst (syncVisibility wboitEnv s')
     \<and> get_markerAverage (snd (syncVisibility wboitEnv s')) = 0
     \<and> calculateMarkerAverage (snd (syncVisibility wboitEnv s')) = 1
     \<and> get_markerAverage (update wboitEnv None True s') = 1"
proof -
  from twoPending_commit obtain s' where s:
    "commit wboitEnv 0 (\<lambda>n. 0) twoPending = Inr (True, s')"
    "renderables s' = [0, 1]" "primitives s' = [0, 1]"
    "heap s' 0 = wboitRenderable 0 (mesh 1)" "heap s' (Suc 0) = wboitRenderable 1 (mesh 2)"
    "markerAverage s' = 0" "opacityAverage s' = 1" "visibleHash s' = - 1"
    by blast
  have m: "calculateMarkerAverage s' = 1" "calculateOpacityAverage s' = 1"
    by (simp_all add: calculateMarkerAverage_def calculateOpacityAverage_def s wboitRenderable_def
          opacityTerm_def clamp_def)
  have c: "fst (syncVisibility wboitEnv s')"
    using computeVisibleHash_not_sentinel [of wboitEnv s'] by (simp add: syncVisibility_def Let_def s)
  have m2: "calculateMarkerAverage (snd (syncVisibility wboitEnv s')) = 1"
    "markerAverage (snd (syncVisibility wboitEnv s')) = 0"
    using m by (simp_all add: syncVisibility_def Let_def calculateMarkerAverage_def s)
  have u: "markerAverage (update wboitEnv None True s') = 1"
    by (simp add: update_averages calculateMarkerAverage_def,
        simp add: update_def Let_def s syncVisibility_def wboitEnv_def wboitRenderable_def)
  show ?thesis
    using s(1) m c m2 u by (auto simp: get_markerAverage_def get_opacityAverage_def s)
qed

text \<open>
  C5: in a scene whose renderables have no \<^verbatim>\<open>colorBlended\<close> program, the
  comparison takes the fallback program of its first argument for both sides, so the
  program ids always compare equal and the order falls through to the material id.
  After a complete commit of two such meshes, the live list has the draw-program ids
  9, 8: they decrease.
\<close>

theorem renderableSort_ignores_fallback_program:
  "\<exists>s'. commit wboitEnv 0 (\<lambda>n. 0) twoPending = Inr (True, s')
     \<and> map (\<lambda>r. drawProgramId (heap s' r)) (renderables s') = [Some 9, Some 8]
     \<and> map (\<lambda>r. materialId (heap s' r)) (renderables s') = [1, 2]
     \<and> renderableSort (heap s' 0) (heap s' 1) = Inr (- 1)"
proof -
  from twoPending_commit obtain s' where s:
    "commit wboitEnv 0 (\<lambda>n. 0) twoPending = Inr (True, s')"
    "renderables s' = [0, 1]"
    "heap s' 0 = wboitRenderable 0 (mesh 1)" "heap s' (Suc 0) = wboitRenderable 1 (mesh 2)"
    by blast
  have "map (\<lambda>r. drawProgramId (heap s' r)) (renderables s') = [Some 9, Some 8]"
    "map (\<lambda>r. materialId (heap s' r)) (renderables s') = [1, 2]"
    "renderableSort (heap s' 0) (heap s' 1) = Inr (- 1)"
    by (simp_all add: s drawProgramId_def wboitRenderable_def orElse_def mesh_def renderableSort_def)
  with s(1) show ?thesis by (intro exI [of _ s']) simp
qed

end
